theory Spec2Isabelle
  imports Complex_Main "HOL-Library.Word"
begin

section \<open>C doubles\<close>

text \<open>
  A C \<^verbatim>\<open>double\<close> is a finite number, an infinity or a NaN.  Finite arithmetic is
  exact in this model (the mantissa is not rounded); a result beyond the largest finite
  double overflows to an infinity, and division by zero and the invalid operations give
  infinities and NaN as IEEE 754 does.  The two zeros are not told apart.
\<close>

datatype double = Fin real | PInf | NInf | NaN

definition DBL_MAX :: real where
  "DBL_MAX = 2 ^ 1024 - 2 ^ 971"

definition rnd :: "real \<Rightarrow> double" where
  "rnd r = (if DBL_MAX < r then PInf else if r < - DBL_MAX then NInf else Fin r)"

fun d_sgn :: "double \<Rightarrow> real" where
  "d_sgn (Fin a) = sgn a"
| "d_sgn PInf = 1"
| "d_sgn NInf = - 1"
| "d_sgn NaN = 0"

definition signed_inf :: "real \<Rightarrow> double" where
  "signed_inf s = (if 0 < s then PInf else if s < 0 then NInf else NaN)"

fun d_neg :: "double \<Rightarrow> double" where
  "d_neg (Fin a) = Fin (- a)"
| "d_neg PInf = NInf"
| "d_neg NInf = PInf"
| "d_neg NaN = NaN"

fun d_add :: "double \<Rightarrow> double \<Rightarrow> double" where
  "d_add (Fin a) (Fin b) = rnd (a + b)"
| "d_add NaN y = NaN"
| "d_add x NaN = NaN"
| "d_add PInf NInf = NaN"
| "d_add NInf PInf = NaN"
| "d_add PInf y = PInf"
| "d_add NInf y = NInf"
| "d_add (Fin a) y = y"

definition d_sub :: "double \<Rightarrow> double \<Rightarrow> double" where
  "d_sub x y = d_add x (d_neg y)"

fun d_mul :: "double \<Rightarrow> double \<Rightarrow> double" where
  "d_mul (Fin a) (Fin b) = rnd (a * b)"
| "d_mul NaN y = NaN"
| "d_mul x NaN = NaN"
| "d_mul x y = signed_inf (d_sgn x * d_sgn y)"

fun d_div :: "double \<Rightarrow> double \<Rightarrow> double" where
  "d_div (Fin a) (Fin b) = (if b = 0 then signed_inf (sgn a) else rnd (a / b))"
| "d_div NaN y = NaN"
| "d_div x NaN = NaN"
| "d_div (Fin a) y = Fin 0"
| "d_div x (Fin b) = signed_inf (d_sgn x * (if b < 0 then - 1 else 1))"
| "d_div x y = NaN"

text \<open>The comparisons \<^verbatim>\<open><\<close> and \<^verbatim>\<open><=\<close>: false as soon as an operand is NaN.\<close>

fun d_less :: "double \<Rightarrow> double \<Rightarrow> bool" where
  "d_less (Fin a) (Fin b) = (a < b)"
| "d_less NaN y = False"
| "d_less x NaN = False"
| "d_less x NInf = False"
| "d_less PInf y = False"
| "d_less x y = True"

definition d_le :: "double \<Rightarrow> double \<Rightarrow> bool" where
  "d_le x y = (d_less x y \<or> (x = y \<and> x \<noteq> NaN))"

text \<open>\<^verbatim>\<open>pow(x, k)\<close> with an exponent that is a non-negative integer.\<close>

fun d_pow :: "double \<Rightarrow> nat \<Rightarrow> double" where
  "d_pow (Fin a) k = rnd (a ^ k)"
| "d_pow PInf k = (if k = 0 then Fin 1 else PInf)"
| "d_pow NInf k = (if k = 0 then Fin 1 else if even k then PInf else NInf)"
| "d_pow NaN k = (if k = 0 then Fin 1 else NaN)"

text \<open>\<^verbatim>\<open>pow(x, y)\<close> with a finite, positive, non-integral exponent \<open>y\<close>.\<close>

fun d_powr :: "double \<Rightarrow> real \<Rightarrow> double" where
  "d_powr (Fin a) y = (if a < 0 then NaN else rnd (a powr y))"
| "d_powr PInf y = PInf"
| "d_powr NInf y = PInf"
| "d_powr NaN y = NaN"

fun d_sqrt :: "double \<Rightarrow> double" where
  "d_sqrt (Fin a) = (if a < 0 then NaN else Fin (sqrt a))"
| "d_sqrt PInf = PInf"
| "d_sqrt NInf = NaN"
| "d_sqrt NaN = NaN"

fun d_sin :: "double \<Rightarrow> double" where
  "d_sin (Fin a) = Fin (sin a)"
| "d_sin x = NaN"

fun d_ceil :: "double \<Rightarrow> double" where
  "d_ceil (Fin a) = Fin (of_int \<lceil>a\<rceil>)"
| "d_ceil x = x"

definition d_of_int :: "int \<Rightarrow> double" where
  "d_of_int k = Fin (of_int k)"

section \<open>Faults\<close>

text \<open>
  What stops a run before its end: the process exits with a status, or the program
  does something the C standard leaves undefined (then the model gives no result).
\<close>

datatype fault = Exit int | OutOfBounds | Unrepresentable | IntOverflow | DivByZero

definition INT_MAX :: int where
  "INT_MAX = 2 ^ 31 - 1"

definition fits_int :: "int \<Rightarrow> bool" where
  "fits_int k = (- (2 ^ 31) \<le> k \<and> k \<le> INT_MAX)"

text \<open>Conversion of a double to a signed integer type of \<open>w\<close> bits: the fraction is
  dropped (towards zero), and a value outside the type is undefined.\<close>

definition trunc :: "real \<Rightarrow> int" where
  "trunc r = (if 0 \<le> r then \<lfloor>r\<rfloor> else \<lceil>r\<rceil>)"

fun d_to_sint :: "nat \<Rightarrow> double \<Rightarrow> fault + int" where
  "d_to_sint w (Fin r) =
     (if - (2 ^ (w - 1)) \<le> trunc r \<and> trunc r < 2 ^ (w - 1) then Inr (trunc r)
      else Inl Unrepresentable)"
| "d_to_sint w x = Inl Unrepresentable"

section \<open>The Kaiser window\<close>

text \<open>
  \<^verbatim>\<open>bessel_i0\<close>: the loop \<^verbatim>\<open>for (;;)\<close> with its state \<open>i0\<close>, \<open>ifac\<close>, \<open>i\<close>.
  The counter is a C \<^verbatim>\<open>int\<close>: once \<open>i * 2\<close> does not fit, the behaviour is undefined.
  At the \<^verbatim>\<open>break\<close> the loop leaves the sum \<open>i0\<close> and the counter \<open>i\<close>, the number of
  terms it has computed; \<^verbatim>\<open>bessel_i0\<close> returns \<open>i0\<close>.
\<close>

function bessel_loop :: "double \<Rightarrow> double \<Rightarrow> double \<Rightarrow> nat \<Rightarrow> fault + double \<times> nat" where
  "bessel_loop x i0 ifac i =
     (if INT_MAX < int i * 2 then Inl IntOverflow
      else
        let diff = d_div (d_pow (d_div x (Fin 2)) (i * 2)) (d_pow ifac 2) in
        if d_less diff (Fin (1 / 10 ^ 21)) then Inr (i0, i)
        else bessel_loop x (d_add i0 diff) (d_mul ifac (d_of_int (int (i + 1)))) (i + 1))"
  by pat_completeness auto
termination
  by (relation "measure (\<lambda>(x, i0, ifac, i). 2 ^ 30 - i)") (auto simp: INT_MAX_def)

declare bessel_loop.simps [simp del]

definition bessel_i0 :: "double \<Rightarrow> fault + double" where
  "bessel_i0 x =
     (case bessel_loop x (Fin 1) (Fin 1) 1 of
        Inl e \<Rightarrow> Inl e
      | Inr (i0, i) \<Rightarrow> Inr i0)"

definition kaiser :: "double \<Rightarrow> double \<Rightarrow> double \<Rightarrow> fault + double" where
  "kaiser alpha M n =
     (if d_less n (Fin 0) \<or> d_less M n then Inr (Fin 0)
      else
        case bessel_i0 (d_mul alpha (d_sqrt (d_sub (Fin 1)
               (d_pow (d_sub (d_div (d_mul (Fin 2) n) M) (Fin 1)) 2)))) of
          Inl e \<Rightarrow> Inl e
        | Inr a \<Rightarrow>
            (case bessel_i0 alpha of
               Inl e \<Rightarrow> Inl e
             | Inr b \<Rightarrow> Inr (d_div a b)))"

text \<open>
  \<^verbatim>\<open>kaiser_dB\<close>, with the expressions of its first two branches named so that they
  can be evaluated on their own.
\<close>

definition kaiser_dB_hi :: "double \<Rightarrow> double" where
  "kaiser_dB_hi dB = d_mul (Fin 0.1102) (d_sub dB (Fin 8.7))"

definition kaiser_dB_mid :: "double \<Rightarrow> double" where
  "kaiser_dB_mid dB =
     d_add (d_mul (Fin 0.5842) (d_powr (d_sub dB (Fin 21)) 0.4))
           (d_mul (Fin 0.07886) (d_sub dB (Fin 21)))"

definition kaiser_dB :: "double \<Rightarrow> double" where
  "kaiser_dB dB =
     (if d_less (Fin 50) dB then kaiser_dB_hi dB
      else if d_le (Fin 21) dB then kaiser_dB_mid dB
      else Fin 0)"


section \<open>Arrays and allocation\<close>

text \<open>A read of \<open>a[k]\<close>: outside the array the behaviour is undefined.\<close>

definition c_nth :: "'a list \<Rightarrow> int \<Rightarrow> fault + 'a" where
  "c_nth xs k = (if 0 \<le> k \<and> k < int (length xs) then Inr (xs ! nat k) else Inl OutOfBounds)"

text \<open>The results of a loop body, in order, up to the first fault.\<close>

fun collect :: "(fault + 'a) list \<Rightarrow> fault + 'a list" where
  "collect [] = Inr []"
| "collect (r # rs) =
     (case r of
        Inl e \<Rightarrow> Inl e
      | Inr v \<Rightarrow> (case collect rs of Inl e \<Rightarrow> Inl e | Inr vs \<Rightarrow> Inr (v # vs)))"

text \<open>\<^verbatim>\<open>calloc(nmemb, size)\<close> with an \<^verbatim>\<open>int\<close> count: a negative count becomes a
  huge \<^verbatim>\<open>size_t\<close> and fails; otherwise the allocator of the environment decides.\<close>

definition c_calloc :: "(nat \<Rightarrow> nat \<Rightarrow> bool) \<Rightarrow> int \<Rightarrow> nat \<Rightarrow> bool" where
  "c_calloc ok nmemb sz = (0 \<le> nmemb \<and> ok (nat nmemb) sz)"

text \<open>C division of integers truncates towards zero.\<close>

definition c_div :: "int \<Rightarrow> int \<Rightarrow> int" where
  "c_div a b = sgn a * sgn b * (\<bar>a\<bar> div \<bar>b\<bar>)"

definition fits_int64 :: "int \<Rightarrow> bool" where
  "fits_int64 k = (- (2 ^ 63) \<le> k \<and> k < 2 ^ 63)"

section \<open>The filter table\<close>

text \<open>
  \<^verbatim>\<open>kaiser_table\<close>: \<open>M\<close> is an \<^verbatim>\<open>int\<close>, so \<open>(len - 1) * 2\<close> has to fit one;
  \<open>Inr None\<close> is the \<^verbatim>\<open>NULL\<close> it returns when \<^verbatim>\<open>calloc\<close> fails.  The loop stores
  \<open>ret[i]\<close> for \<open>i = 0, ..., len - 1\<close>, each from \<open>i\<close> alone.
\<close>

definition kaiser_table :: "(nat \<Rightarrow> nat \<Rightarrow> bool) \<Rightarrow> double \<Rightarrow> int \<Rightarrow> fault + double list option" where
  "kaiser_table ok alpha len =
     (let M = (len - 1) * 2 in
      if \<not> fits_int M then Inl IntOverflow
      else if \<not> c_calloc ok len 8 then Inr None
      else
        case collect (map (\<lambda>i. kaiser alpha (d_of_int M) (d_of_int (len - i - 1))) [0..len - 1]) of
          Inl e \<Rightarrow> Inl e
        | Inr ret \<Rightarrow> Inr (Some ret))"

text \<open>The constants of \<^verbatim>\<open>bi_resamp\<close>; \<^verbatim>\<open>sizeof(short)\<close> is 2.\<close>

definition n_c :: int where
  "n_c = 2 * 8"

definition n_l :: int where
  "n_l = 1 + n_c div 2"

definition L :: int where
  "L = 2 ^ nat n_l"

definition N_z :: int where
  "N_z = 5"

definition N_h :: int where
  "N_h = L * N_z + 1"

text \<open>
  Lines 153 to 174 of \<^verbatim>\<open>bi_resamp\<close>, which build \<open>h\<close> and \<open>hb\<close>, with the shape
  \<open>cutoff\<close>, the resolution \<open>res\<close> (\<open>L\<close> in the program) and the table length \<open>len\<close>
  (\<open>N_h\<close> in the program) as parameters.  A failed allocation ends the process with
  status 1; \<open>h[0] = 1.0\<close> in a table without entries is a store outside the array.
\<close>

definition filter_table ::
    "(nat \<Rightarrow> nat \<Rightarrow> bool) \<Rightarrow> double \<Rightarrow> int \<Rightarrow> int \<Rightarrow> fault + (double list \<times> double list)" where
  "filter_table ok cutoff res len =
     (case kaiser_table ok cutoff len of
        Inl e \<Rightarrow> Inl e
      | Inr None \<Rightarrow> Inl (Exit 1)
      | Inr (Some h0) \<Rightarrow>
          if len < 1 then Inl OutOfBounds
          else
            let h1 = map (\<lambda>i. if 1 \<le> i
                             then (let sinc = d_mul (d_div (d_of_int i) (d_of_int res)) (Fin pi)
                                   in d_mul (h0 ! nat i) (d_div (d_sin sinc) sinc))
                             else h0 ! nat i) [0..len - 1];
                h = h1[0 := Fin 1]
            in
              if \<not> c_calloc ok len 8 then Inl (Exit 1)
              else
                let hb = map (\<lambda>i. if i < len - 1 then d_sub (h ! nat (i + 1)) (h ! nat i)
                                  else Fin 0) [0..len - 1]
                in Inr (h, hb))"

section \<open>Sound files\<close>

type_synonym short = "16 word"

record sf_info =
  frames :: int
  samplerate :: int
  channels :: int
  format :: int

text \<open>A sound file: what its header reports, and the interleaved samples the decoder
  yields from its data.\<close>

record sound_file =
  info :: sf_info
  pcm :: "short list"

text \<open>What surrounds a run: the files that can be opened for reading, the allocator,
  and the paths that can be opened for writing.\<close>

record world =
  files :: "string \<Rightarrow> sound_file option"
  calloc_ok :: "nat \<Rightarrow> nat \<Rightarrow> bool"
  creatable :: "string \<Rightarrow> bool"

text \<open>\<^verbatim>\<open>sf_readf_short(sf, dat, n)\<close>: the number of frames read, and what it stored.\<close>

definition sf_readf_short :: "sound_file \<Rightarrow> int \<Rightarrow> int \<times> short list" where
  "sf_readf_short f n =
     (let c = channels (info f);
          avail = (if c < 1 then 0 else int (length (pcm f)) div c);
          cnt = max 0 (min n avail)
      in (cnt, take (nat (cnt * c)) (pcm f)))"

text \<open>A file opened for writing: \<^verbatim>\<open>sf_open\<close> in mode \<^verbatim>\<open>SFM_WRITE\<close> creates it from
  the \<^verbatim>\<open>SF_INFO\<close> it is given, with no frame; frames are added by the write calls
  made before \<^verbatim>\<open>sf_close\<close>.\<close>

record written =
  out_path :: string
  out_info :: sf_info
  out_pcm :: "short list"

definition sf_open_write :: "world \<Rightarrow> string \<Rightarrow> sf_info \<Rightarrow> written option" where
  "sf_open_write w path sfi =
     (if creatable w path then Some \<lparr>out_path = path, out_info = sfi, out_pcm = []\<rparr> else None)"

section \<open>The resampler\<close>

text \<open>The values \<^verbatim>\<open>bi_resamp\<close> has computed once its input is read and padded
  (lines 125 to 151).\<close>

record padded =
  c_sfinfo :: sf_info
  c_Fs :: int
  c_Fsp :: int
  c_extra :: int
  c_x_len :: int
  c_x :: "short list"

definition read_input :: "world \<Rightarrow> string \<Rightarrow> int \<Rightarrow> fault + padded" where
  "read_input w inp rate =
     (case files w inp of
        None \<Rightarrow> Inl (Exit 1)
      | Some f \<Rightarrow>
          let sfi = info f; Fs = samplerate sfi; Fsp = rate;
              rho = d_div (d_of_int Fsp) (d_of_int Fs)
          in
            case (if d_less rho (Fin 1)
                  then (if fits_int (N_z * Fs)
                        then d_to_sint 32 (d_ceil (d_div (d_of_int (N_z * Fs)) (d_of_int Fsp)))
                        else Inl IntOverflow)
                  else Inr N_z) of
              Inl e \<Rightarrow> Inl e
            | Inr extra \<Rightarrow>
                let dat_len = frames sfi * channels sfi;
                    x_len = frames sfi + 2 * extra
                in
                  if \<not> fits_int dat_len \<or> \<not> fits_int x_len then Inl Unrepresentable
                  else if \<not> c_calloc (calloc_ok w) x_len 2 then Inl (Exit 1)
                  else if \<not> c_calloc (calloc_ok w) dat_len 2 then Inl (Exit 1)
                  else
                    let (cnt, dat) = sf_readf_short f (frames sfi) in
                    if cnt \<noteq> frames sfi then Inl (Exit 1)
                    else
                      case collect (map (\<lambda>i. if i < extra \<or> x_len - extra \<le> i then Inr 0
                                             else c_nth dat ((i - extra) * channels sfi))
                                        [0..x_len - 1]) of
                        Inl e \<Rightarrow> Inl e
                      | Inr xs \<Rightarrow>
                          Inr \<lparr>c_sfinfo = sfi, c_Fs = Fs, c_Fsp = Fsp, c_extra = extra,
                               c_x_len = x_len, c_x = xs\<rparr>)"

text \<open>Line 178: the product and the quotient are computed in \<^verbatim>\<open>sf_count_t\<close> (64 bits),
  converted to \<^verbatim>\<open>double\<close> and then to \<^verbatim>\<open>int\<close>.\<close>

definition y_length :: "sf_info \<Rightarrow> int \<Rightarrow> fault + int" where
  "y_length sfi Fsp =
     (if \<not> fits_int64 (frames sfi * Fsp) then Inl IntOverflow
      else if samplerate sfi = 0 then Inl DivByZero
      else d_to_sint 32 (d_of_int (c_div (frames sfi * Fsp) (samplerate sfi))))"

definition short_to_double :: "short \<Rightarrow> double" where
  "short_to_double s = Fin (of_int (sint s))"

definition d_to_short :: "double \<Rightarrow> fault + short" where
  "d_to_short d = (case d_to_sint 16 d of Inl e \<Rightarrow> Inl e | Inr k \<Rightarrow> Inr (word_of_int k))"

text \<open>
  The two inner loops (lines 199 to 200 and 206 to 207), from the counter \<open>i\<close> and the
  accumulator \<open>v\<close>; \<open>v\<close> is a \<^verbatim>\<open>short\<close>, so \<open>v += e\<close> converts \<open>v + e\<close> back to
  \<^verbatim>\<open>short\<close> each time.  \<open>step\<close> is \<open>L\<close>.
\<close>

function left_wing ::
    "short list \<Rightarrow> double list \<Rightarrow> double list \<Rightarrow> double \<Rightarrow> int \<Rightarrow> int \<Rightarrow> int \<Rightarrow> short \<Rightarrow> fault + short" where
  "left_wing xs h hb eta l n i v =
     (if l + i * L < N_h then
        (case c_nth xs (n - i) of
           Inl e \<Rightarrow> Inl e
         | Inr xv \<Rightarrow>
           (case c_nth h (l + i * L) of
              Inl e \<Rightarrow> Inl e
            | Inr hv \<Rightarrow>
              (case c_nth hb (l + i * L) of
                 Inl e \<Rightarrow> Inl e
               | Inr hbv \<Rightarrow>
                 (case d_to_short (d_add (short_to_double v)
                         (d_mul (short_to_double xv) (d_add hv (d_mul eta hbv)))) of
                    Inl e \<Rightarrow> Inl e
                  | Inr v' \<Rightarrow> left_wing xs h hb eta l n (i + 1) v'))))
      else Inr v)"
  by pat_completeness auto
termination
  by (relation "measure (\<lambda>(xs, h, hb, eta, l, n, i, v). nat (N_h - (l + i * L)))")
     (auto simp: L_def n_l_def n_c_def)

declare left_wing.simps [simp del]

function right_wing ::
    "short list \<Rightarrow> double list \<Rightarrow> double list \<Rightarrow> double \<Rightarrow> int \<Rightarrow> int \<Rightarrow> int \<Rightarrow> short \<Rightarrow> fault + short" where
  "right_wing xs h hb eta l n i v =
     (if l + i * L < N_h then
        (case c_nth xs (n + 1 + i) of
           Inl e \<Rightarrow> Inl e
         | Inr xv \<Rightarrow>
           (case c_nth h (l + i * L) of
              Inl e \<Rightarrow> Inl e
            | Inr hv \<Rightarrow>
              (case c_nth hb (l + i * L) of
                 Inl e \<Rightarrow> Inl e
               | Inr hbv \<Rightarrow>
                 (case d_to_short (d_add (short_to_double v)
                         (d_mul (short_to_double xv) (d_add hv (d_mul eta hbv)))) of
                    Inl e \<Rightarrow> Inl e
                  | Inr v' \<Rightarrow> right_wing xs h hb eta l n (i + 1) v'))))
      else Inr v)"
  by pat_completeness auto
termination
  by (relation "measure (\<lambda>(xs, h, hb, eta, l, n, i, v). nat (N_h - (l + i * L)))")
     (auto simp: L_def n_l_def n_c_def)

declare right_wing.simps [simp del]

text \<open>The body of the main loop (lines 188 to 209) at output time \<open>t\<close>.\<close>

definition sample :: "padded \<Rightarrow> double list \<Rightarrow> double list \<Rightarrow> double \<Rightarrow> fault + short" where
  "sample c h hb t =
     (case d_to_sint 32 (d_mul t (d_of_int (c_Fs c))) of
        Inl e \<Rightarrow> Inl e
      | Inr n \<Rightarrow>
          let xt = d_div (d_of_int n) (d_of_int (c_Fs c));
              xtn = d_div (d_of_int (n + 1)) (d_of_int (c_Fs c));
              eta = d_sub (Fin 1) (d_div (d_sub xtn t) (d_sub xtn xt))
          in
            case d_to_sint 32 (d_mul eta (d_of_int L)) of
              Inl e \<Rightarrow> Inl e
            | Inr l \<Rightarrow>
              (case left_wing (c_x c) h hb eta l (n + c_extra c) 0 0 of
                 Inl e \<Rightarrow> Inl e
               | Inr v \<Rightarrow>
                   let eta' = d_sub (Fin 1) eta in
                   case d_to_sint 32 (d_mul eta' (d_of_int L)) of
                     Inl e \<Rightarrow> Inl e
                   | Inr l' \<Rightarrow> right_wing (c_x c) h hb eta' l' (n + c_extra c) 0 v))"

text \<open>The main loop (lines 186 to 212), from the counter \<open>j\<close>, the time \<open>t\<close> and the
  output buffer \<open>y\<close>.\<close>

function resamp_loop ::
    "padded \<Rightarrow> double list \<Rightarrow> double list \<Rightarrow> int \<Rightarrow> int \<Rightarrow> double \<Rightarrow> short list \<Rightarrow> fault + short list" where
  "resamp_loop c h hb y_len j t y =
     (if j < y_len then
        (case sample c h hb t of
           Inl e \<Rightarrow> Inl e
         | Inr v \<Rightarrow>
             resamp_loop c h hb y_len (j + 1)
               (d_add t (d_div (Fin 1) (d_of_int (c_Fsp c)))) (y[nat j := v]))
      else Inr y)"
  by pat_completeness auto
termination
  by (relation "measure (\<lambda>(c, h, hb, y_len, j, t, y). nat (y_len - j))") auto

declare resamp_loop.simps [simp del]

text \<open>Lines 176 to 212: the output length, the output buffer and the main loop.\<close>

definition resample :: "world \<Rightarrow> padded \<Rightarrow> double list \<Rightarrow> double list \<Rightarrow> fault + short list" where
  "resample w c h hb =
     (case y_length (c_sfinfo c) (c_Fsp c) of
        Inl e \<Rightarrow> Inl e
      | Inr y_len \<Rightarrow>
          if \<not> c_calloc (calloc_ok w) y_len 2 then Inl (Exit 1)
          else resamp_loop c h hb y_len 0 (Fin 0) (replicate (nat y_len) 0))"

text \<open>Lines 214 to 219: the output file is opened with the new \<^verbatim>\<open>SF_INFO\<close> and closed;
  no write call stands between the two.  The buffer \<open>y\<close> was allocated with \<open>y_len\<close>
  entries, so \<open>y_len\<close> is its length.\<close>

definition write_output :: "world \<Rightarrow> string \<Rightarrow> padded \<Rightarrow> short list \<Rightarrow> fault + written" where
  "write_output w out c y =
     (let sfi = (c_sfinfo c)\<lparr>channels := 1, samplerate := c_Fsp c, frames := int (length y)\<rparr> in
      case sf_open_write w out sfi of
        None \<Rightarrow> Inl (Exit 1)
      | Some sf \<Rightarrow> Inr sf)"

text \<open>What a run has built when it ends.\<close>

record progress =
  x_buf :: "short list option"
  tables :: "(double list \<times> double list) option"
  y_buf :: "short list option"
  out_file :: "written option"

datatype status = Done | Stopped fault

definition start :: progress where
  "start = \<lparr>x_buf = None, tables = None, y_buf = None, out_file = None\<rparr>"

definition bi_resamp :: "world \<Rightarrow> string \<Rightarrow> string \<Rightarrow> int \<Rightarrow> status \<times> progress" where
  "bi_resamp w inp out rate =
     (case read_input w inp rate of
        Inl e \<Rightarrow> (Stopped e, start)
      | Inr c \<Rightarrow>
        (case filter_table (calloc_ok w) (kaiser_dB (Fin 80)) L N_h of
           Inl e \<Rightarrow> (Stopped e, start\<lparr>x_buf := Some (c_x c)\<rparr>)
         | Inr (h, hb) \<Rightarrow>
           (case resample w c h hb of
              Inl e \<Rightarrow> (Stopped e, start\<lparr>x_buf := Some (c_x c), tables := Some (h, hb)\<rparr>)
            | Inr y \<Rightarrow>
              (case write_output w out c y of
                 Inl e \<Rightarrow>
                   (Stopped e,
                    start\<lparr>x_buf := Some (c_x c), tables := Some (h, hb), y_buf := Some y\<rparr>)
               | Inr f \<Rightarrow>
                   (Done,
                    \<lparr>x_buf = Some (c_x c), tables = Some (h, hb), y_buf = Some y,
                     out_file = Some f\<rparr>)))))"

section \<open>The Bessel series in closed form\<close>

text \<open>The \<open>k\<close>-th term of the series that \<^verbatim>\<open>bessel_i0\<close> sums, the sum of the terms
  below \<open>m\<close>, and the index at which the loop stops: the first term below the threshold.\<close>

definition bterm :: "real \<Rightarrow> nat \<Rightarrow> real" where
  "bterm x k = (x / 2) ^ (2 * k) / (fact k) ^ 2"

definition bsum :: "real \<Rightarrow> nat \<Rightarrow> real" where
  "bsum x m = 1 + (\<Sum>k = 1..<m. bterm x k)"

definition bessel_stop :: "real \<Rightarrow> nat" where
  "bessel_stop x = (LEAST m. 1 \<le> m \<and> bterm x m < 1 / 10 ^ 21)"

definition bessel_val :: "real \<Rightarrow> real" where
  "bessel_val x = bsum x (bessel_stop x)"

text \<open>The value \<^verbatim>\<open>kaiser\<close> returns inside the window, over the reals.\<close>

definition kaiser_arg :: "real \<Rightarrow> real \<Rightarrow> real" where
  "kaiser_arg M n = sqrt (1 - (2 * n / M - 1)\<^sup>2)"

definition kaiser_val :: "real \<Rightarrow> real \<Rightarrow> real \<Rightarrow> real" where
  "kaiser_val alpha M n = bessel_val (alpha * kaiser_arg M n) / bessel_val alpha"

text \<open>The entries of the two tables over the reals: the factor \<open>sin(s) / s\<close> at
  \<open>s = i / res * pi\<close>, the windowed entry \<open>h[i]\<close> and the difference \<open>hb[i]\<close>.\<close>

definition sinc_val :: "int \<Rightarrow> int \<Rightarrow> real" where
  "sinc_val res i = sin (of_int i / of_int res * pi) / (of_int i / of_int res * pi)"

definition h_val :: "real \<Rightarrow> int \<Rightarrow> int \<Rightarrow> int \<Rightarrow> real" where
  "h_val alpha res len i =
     (if i = 0 then 1
      else kaiser_val alpha (of_int ((len - 1) * 2)) (of_int (len - i - 1)) * sinc_val res i)"

definition hb_val :: "real \<Rightarrow> int \<Rightarrow> int \<Rightarrow> int \<Rightarrow> real" where
  "hb_val alpha res len i =
     (if i < len - 1 then h_val alpha res len (i + 1) - h_val alpha res len i else 0)"

section \<open>The accumulated sum, term by term\<close>

text \<open>One \<open>v += e\<close> on the \<^verbatim>\<open>short\<close> accumulator, and a sequence of them over a list of
  terms, the first fault ending it.\<close>

definition add16 :: "short \<Rightarrow> double \<Rightarrow> fault + short" where
  "add16 v e = d_to_short (d_add (short_to_double v) e)"

fun acc16 :: "short \<Rightarrow> (fault + double) list \<Rightarrow> fault + short" where
  "acc16 v [] = Inr v"
| "acc16 v (t # ts) =
     (case t of
        Inl e \<Rightarrow> Inl e
      | Inr d \<Rightarrow> (case add16 v d of Inl e \<Rightarrow> Inl e | Inr v' \<Rightarrow> acc16 v' ts))"

text \<open>The term a wing adds at one step, from the signal index \<open>k\<close> and the table index
  \<open>m\<close>; the last counter \<open>i\<close> with \<open>l + i * L < N_h\<close>; and the terms of the two wings in
  the order the loops visit them.\<close>

definition wing_term ::
    "short list \<Rightarrow> double list \<Rightarrow> double list \<Rightarrow> double \<Rightarrow> int \<Rightarrow> int \<Rightarrow> fault + double" where
  "wing_term xs h hb eta k m =
     (case c_nth xs k of
        Inl e \<Rightarrow> Inl e
      | Inr xv \<Rightarrow>
        (case c_nth h m of
           Inl e \<Rightarrow> Inl e
         | Inr hv \<Rightarrow>
           (case c_nth hb m of
              Inl e \<Rightarrow> Inl e
            | Inr hbv \<Rightarrow> Inr (d_mul (short_to_double xv) (d_add hv (d_mul eta hbv))))))"

definition wing_last :: "int \<Rightarrow> int" where
  "wing_last l = (N_h - 1 - l) div L"

definition left_terms ::
    "short list \<Rightarrow> double list \<Rightarrow> double list \<Rightarrow> double \<Rightarrow> int \<Rightarrow> int \<Rightarrow> (fault + double) list" where
  "left_terms xs h hb eta l n =
     map (\<lambda>i. wing_term xs h hb eta (n - i) (l + i * L)) [0..wing_last l]"

definition right_terms ::
    "short list \<Rightarrow> double list \<Rightarrow> double list \<Rightarrow> double \<Rightarrow> int \<Rightarrow> int \<Rightarrow> (fault + double) list" where
  "right_terms xs h hb eta l n =
     map (\<lambda>i. wing_term xs h hb eta (n + 1 + i) (l + i * L)) [0..wing_last l]"

text \<open>The terms of one output sample at time \<open>t\<close>, left wing first.\<close>

definition sample_terms ::
    "padded \<Rightarrow> double list \<Rightarrow> double list \<Rightarrow> double \<Rightarrow> fault + (fault + double) list" where
  "sample_terms c h hb t =
     (case d_to_sint 32 (d_mul t (d_of_int (c_Fs c))) of
        Inl e \<Rightarrow> Inl e
      | Inr n \<Rightarrow>
          let xt = d_div (d_of_int n) (d_of_int (c_Fs c));
              xtn = d_div (d_of_int (n + 1)) (d_of_int (c_Fs c));
              eta = d_sub (Fin 1) (d_div (d_sub xtn t) (d_sub xtn xt))
          in
            case d_to_sint 32 (d_mul eta (d_of_int L)) of
              Inl e \<Rightarrow> Inl e
            | Inr l \<Rightarrow>
              (case d_to_sint 32 (d_mul (d_sub (Fin 1) eta) (d_of_int L)) of
                 Inl e \<Rightarrow> Inl e
               | Inr l' \<Rightarrow>
                   Inr (left_terms (c_x c) h hb eta l (n + c_extra c) @
                        right_terms (c_x c) h hb (d_sub (Fin 1) eta) l' (n + c_extra c))))"

text \<open>The reading of the specification: the terms are summed in \<^verbatim>\<open>double\<close> and the
  sum is converted to 16 bits once.\<close>

definition sample_once :: "padded \<Rightarrow> double list \<Rightarrow> double list \<Rightarrow> double \<Rightarrow> fault + short" where
  "sample_once c h hb t =
     (case sample_terms c h hb t of
        Inl e \<Rightarrow> Inl e
      | Inr ts \<Rightarrow>
        (case collect ts of
           Inl e \<Rightarrow> Inl e
         | Inr ds \<Rightarrow> d_to_short (foldl d_add (Fin 0) ds)))"

text \<open>The table of the program in closed form: the shape is that of 80 dB.\<close>

definition alpha80 :: real where
  "alpha80 = 0.1102 * (80 - 8.7)"

definition h_tab :: "double list" where
  "h_tab = map (\<lambda>i. Fin (h_val alpha80 L N_h i)) [0..N_h - 1]"

definition hb_tab :: "double list" where
  "hb_tab = map (\<lambda>i. Fin (hb_val alpha80 L N_h i)) [0..N_h - 1]"

text \<open>Example inputs: a one-channel file, and an environment that holds it under the
  name \<open>in\<close>, grants every allocation and can create every output file.\<close>

definition mono_file :: "int \<Rightarrow> short list \<Rightarrow> sound_file" where
  "mono_file rate xs =
     \<lparr>info = \<lparr>frames = int (length xs), samplerate = rate, channels = 1, format = 0\<rparr>,
      pcm = xs\<rparr>"

definition one_file :: "sound_file \<Rightarrow> world" where
  "one_file f =
     \<lparr>files = (\<lambda>p. if p = ''in'' then Some f else None),
      calloc_ok = (\<lambda>n s. True),
      creatable = (\<lambda>p. True)\<rparr>"

text \<open>The padded signals of three runs: one frame at 1 Hz resampled to 1 Hz, one frame
  at 1 Hz resampled to 1024 Hz, and the frames -1, 2, 1 at 1 Hz resampled to 1 Hz.\<close>

definition tiny_padded :: padded where
  "tiny_padded = \<lparr>c_sfinfo = \<lparr>frames = 1, samplerate = 1, channels = 1, format = 0\<rparr>,
          c_Fs = 1, c_Fsp = 1, c_extra = 5, c_x_len = 11, c_x = replicate 11 0\<rparr>"

definition up_padded :: padded where
  "up_padded = \<lparr>c_sfinfo = \<lparr>frames = 1, samplerate = 1, channels = 1, format = 0\<rparr>,
          c_Fs = 1, c_Fsp = 1024, c_extra = 5, c_x_len = 11, c_x = replicate 11 0\<rparr>"

text \<open>The window of the program at the table indices 513 and 1025.\<close>

definition K513 :: real where "K513 = kaiser_val alpha80 5120 2047"

definition K1025 :: real where "K1025 = kaiser_val alpha80 5120 1535"

definition three_padded :: padded where
  "three_padded = \<lparr>c_sfinfo = \<lparr>frames = 3, samplerate = 1, channels = 1, format = 0\<rparr>,
      c_Fs = 1, c_Fsp = 1, c_extra = 5, c_x_len = 13,
      c_x = [0, 0, 0, 0, 0, - 1, 2, 1, 0, 0, 0, 0, 0]\<rparr>"

text \<open>The time \<open>t\<close> of the main loop when it computes \<open>y[j]\<close>: \<open>1.0 / Fsp\<close> added \<open>j\<close>
  times to 0.\<close>

fun time_at :: "padded \<Rightarrow> nat \<Rightarrow> double" where
  "time_at c 0 = Fin 0"
| "time_at c (Suc j) = d_add (time_at c j) (d_div (Fin 1) (d_of_int (c_Fsp c)))"

section \<open>Doubles within range\<close>

lemma DBL_MAX_ge: "2 ^ 1023 \<le> DBL_MAX"
  by (simp add: DBL_MAX_def)

lemma rnd_Fin: "\<bar>r\<bar> \<le> DBL_MAX \<Longrightarrow> rnd r = Fin r"
  by (auto simp: rnd_def)

lemma rnd_small: "\<bar>r\<bar> \<le> 2 ^ 1023 \<Longrightarrow> rnd r = Fin r"
  using DBL_MAX_ge by (intro rnd_Fin) linarith

lemma num1: "(25::real) ^ 180 \<le> 2 ^ 1023" by simp
lemma num2: "(fact 90 :: real) ^ 2 \<le> 2 ^ 1023" by (simp add: fact_numeral)
lemma num3: "(25::real) ^ 180 * 10 ^ 21 < (fact 90) ^ 2" by (simp add: fact_numeral)
lemma num4: "1 + 90 * (25::real) ^ 180 \<le> 2 ^ 1023" by simp

lemma pow_bound:
  fixes x :: real
  assumes "\<bar>x\<bar> \<le> 50" "k \<le> 90"
  shows "0 \<le> (x / 2) ^ (2 * k)" "(x / 2) ^ (2 * k) \<le> 25 ^ 180"
proof -
  have sq: "(x / 2) ^ (2 * k) = ((x / 2)\<^sup>2) ^ k" by (simp add: power_mult)
  show "0 \<le> (x / 2) ^ (2 * k)" unfolding sq by simp
  have "\<bar>x / 2\<bar> \<le> \<bar>25::real\<bar>" using assms(1) by simp
  then have "(x / 2)\<^sup>2 \<le> 25\<^sup>2" by (rule abs_le_square_iff[THEN iffD1])
  then have "((x / 2)\<^sup>2) ^ k \<le> ((25::real)\<^sup>2) ^ k" by (rule power_mono) auto
  also have "\<dots> \<le> ((25::real)\<^sup>2) ^ 90" using assms(2) by (intro power_increasing) auto
  also have "\<dots> = 25 ^ 180" by (simp flip: power_mult)
  finally show "(x / 2) ^ (2 * k) \<le> 25 ^ 180" unfolding sq .
qed


lemma bterm_nonneg: "0 \<le> bterm x k"
  by (simp add: bterm_def power_mult)

lemma bterm_le_pow: "bterm x k \<le> (x / 2) ^ (2 * k)"
proof -
  have "(1::real) \<le> (fact k) ^ 2" by (simp add: fact_ge_1 power2_eq_square mult_ge1_I)
  moreover have "0 \<le> (x / 2) ^ (2 * k)" by (simp add: power_mult)
  ultimately show ?thesis unfolding bterm_def
    by (metis div_by_1 frac_le zero_less_one order_refl)
qed

lemma bterm_90:
  fixes x :: real
  assumes "\<bar>x\<bar> \<le> 50"
  shows "bterm x 90 < 1 / 10 ^ 21"
proof -
  have "(x / 2) ^ (2 * 90) \<le> 25 ^ 180" using pow_bound(2)[OF assms, of 90] by simp
  then have "bterm x 90 \<le> 25 ^ 180 / (fact 90) ^ 2"
    unfolding bterm_def by (intro divide_right_mono) auto
  also have "\<dots> < 1 / 10 ^ 21"
    using num3 by (simp add: field_simps)
  finally show ?thesis .
qed

lemma bsum_Suc: "1 \<le> i \<Longrightarrow> bsum x (Suc i) = bsum x i + bterm x i"
  by (simp add: bsum_def)

lemma bsum_bounds:
  fixes x :: real
  assumes "\<bar>x\<bar> \<le> 50" "i \<le> 91"
  shows "1 \<le> bsum x i" "bsum x i \<le> 1 + 90 * 25 ^ 180"
proof -
  show "1 \<le> bsum x i" unfolding bsum_def by (simp add: sum_nonneg bterm_nonneg)
  have "(\<Sum>k = 1..<i. bterm x k) \<le> (\<Sum>k = 1..<i. 25 ^ 180)"
  proof (rule sum_mono)
    fix k assume "k \<in> {1..<i}"
    then have "k \<le> 90" using assms(2) by simp
    then show "bterm x k \<le> 25 ^ 180"
      using bterm_le_pow[of x k] pow_bound(2)[OF assms(1), of k] by linarith
  qed
  also have "\<dots> = real (i - 1) * 25 ^ 180" by simp
  also have "\<dots> \<le> 90 * 25 ^ 180" using assms(2) by (intro mult_right_mono) auto
  finally show "bsum x i \<le> 1 + 90 * 25 ^ 180" unfolding bsum_def by simp
qed


lemma rnd_le: "0 \<le> r \<Longrightarrow> r \<le> c \<Longrightarrow> c \<le> 2 ^ 1023 \<Longrightarrow> rnd r = Fin r"
  using DBL_MAX_ge by (intro rnd_Fin) linarith

lemma num5: "(fact 91 :: real) \<le> 2 ^ 1023" by (simp add: fact_numeral)

lemma bessel_step:
  fixes x :: real
  assumes x: "\<bar>x\<bar> \<le> 50" and i: "1 \<le> i" "i \<le> 90"
  shows "bessel_loop (Fin x) (Fin (bsum x i)) (Fin (fact i)) i =
    (if bterm x i < 1 / 10 ^ 21 then Inr (Fin (bsum x i), i)
     else bessel_loop (Fin x) (Fin (bsum x (Suc i))) (Fin (fact (Suc i))) (Suc i))"
proof -
  have half: "d_div (Fin x) (Fin 2) = Fin (x / 2)"
    using x by (simp add: rnd_small)
  have "rnd ((x / 2) ^ (2 * i)) = Fin ((x / 2) ^ (2 * i))"
    using pow_bound[OF x i(2)] num1 by (rule rnd_le)
  then have p: "d_pow (Fin (x / 2)) (i * 2) = Fin ((x / 2) ^ (2 * i))"
    by (simp only: d_pow.simps mult.commute)
  have "(fact i :: real) \<le> fact 90" using i(2) by (simp add: fact_mono)
  then have "(fact i :: real) ^ 2 \<le> (fact 90) ^ 2" by (rule power_mono) simp
  then have "rnd ((fact i) ^ 2) = Fin ((fact i) ^ 2)"
    using num2 by (intro rnd_le[of _ "(fact 90) ^ 2"]) simp_all
  then have f: "d_pow (Fin (fact i)) 2 = Fin ((fact i) ^ 2)"
    by (simp only: d_pow.simps)
  have "bterm x i \<le> 25 ^ 180"
    using bterm_le_pow[of x i] pow_bound(2)[OF x i(2)] by (rule order_trans)
  then have "rnd (bterm x i) = Fin (bterm x i)"
    using bterm_nonneg[of x i] num1 by (intro rnd_le[of _ "25 ^ 180"])
  moreover have "(fact i :: real) ^ 2 \<noteq> 0" by simp
  ultimately have d: "d_div (Fin ((x / 2) ^ (2 * i))) (Fin ((fact i) ^ 2)) = Fin (bterm x i)"
    by (simp only: d_div.simps bterm_def if_False)
  have "bsum x (Suc i) \<le> 1 + 90 * 25 ^ 180"
    using bsum_bounds(2)[OF x, of "Suc i"] i(2) by simp
  moreover have "0 \<le> bsum x (Suc i)" using bsum_bounds(1)[OF x, of "Suc i"] i(2) by simp
  ultimately have "rnd (bsum x (Suc i)) = Fin (bsum x (Suc i))"
    using num4 by (intro rnd_le[of _ "1 + 90 * 25 ^ 180"])
  then have a: "d_add (Fin (bsum x i)) (Fin (bterm x i)) = Fin (bsum x (Suc i))"
    using i(1) by (simp only: d_add.simps bsum_Suc)
  have "(fact (Suc i) :: real) \<le> fact 91" using i(2) by (intro fact_mono) simp
  then have "rnd (fact (Suc i)) = Fin (fact (Suc i))"
    using num5 by (intro rnd_le[of _ "fact 91"]) simp_all
  moreover have "(fact i :: real) * real_of_int (int (Suc i)) = fact (Suc i)"
    by (simp add: algebra_simps)
  ultimately have m: "d_mul (Fin (fact i)) (d_of_int (int (Suc i))) = Fin (fact (Suc i))"
    by (simp only: d_mul.simps d_of_int_def)
  have ov: "\<not> INT_MAX < int i * 2" using i(2) by (simp add: INT_MAX_def)
  have s: "i + 1 = Suc i" by simp
  show ?thesis
    by (subst bessel_loop.simps) (simp only: ov half p f d a m s Let_def d_less.simps if_False)
qed

lemma bessel_loop_run:
  fixes x :: real
  assumes x: "\<bar>x\<bar> \<le> 50"
  shows "1 \<le> i \<Longrightarrow> i \<le> 90 \<Longrightarrow>
    \<exists>m. i \<le> m \<and> m \<le> 90 \<and> bterm x m < 1 / 10 ^ 21 \<and>
        (\<forall>k. i \<le> k \<and> k < m \<longrightarrow> \<not> bterm x k < 1 / 10 ^ 21) \<and>
        bessel_loop (Fin x) (Fin (bsum x i)) (Fin (fact i)) i = Inr (Fin (bsum x m), m)"
proof (induction "90 - i" arbitrary: i)
  case 0
  then have "i = 90" by simp
  then show ?case
    using bterm_90[OF x] bessel_step[OF x, of 90] by (intro exI[of _ 90]) simp
next
  case (Suc d)
  show ?case
  proof (cases "bterm x i < 1 / 10 ^ 21")
    case True
    then show ?thesis
      using bessel_step[OF x Suc.prems] Suc.prems by (intro exI[of _ i]) simp
  next
    case False
    have "d = 90 - Suc i" "1 \<le> Suc i" "Suc i \<le> 90" using Suc.hyps(2) Suc.prems by auto
    from Suc.hyps(1)[OF this] obtain m where m: "Suc i \<le> m" "m \<le> 90"
      "bterm x m < 1 / 10 ^ 21" "\<forall>k. Suc i \<le> k \<and> k < m \<longrightarrow> \<not> bterm x k < 1 / 10 ^ 21"
      "bessel_loop (Fin x) (Fin (bsum x (Suc i))) (Fin (fact (Suc i))) (Suc i) = Inr (Fin (bsum x m), m)"
      by blast
    have "\<forall>k. i \<le> k \<and> k < m \<longrightarrow> \<not> bterm x k < 1 / 10 ^ 21"
      using m(4) False by (metis Suc_leI le_neq_implies_less)
    then show ?thesis
      using m bessel_step[OF x Suc.prems] False by (intro exI[of _ m]) simp
  qed
qed

lemma bessel_i0_run:
  fixes x :: real
  assumes x: "\<bar>x\<bar> \<le> 50"
  shows "\<exists>m. 1 \<le> m \<and> m \<le> 90 \<and> bterm x m < 1 / 10 ^ 21 \<and>
        (\<forall>k. 1 \<le> k \<and> k < m \<longrightarrow> \<not> bterm x k < 1 / 10 ^ 21) \<and>
        bessel_loop (Fin x) (Fin 1) (Fin 1) 1 = Inr (Fin (bsum x m), m) \<and>
        bessel_i0 (Fin x) = Inr (Fin (bsum x m))"
proof -
  from bessel_loop_run[OF x, of 1] obtain m where m: "1 \<le> m" "m \<le> 90"
    "bterm x m < 1 / 10 ^ 21" "\<forall>k. 1 \<le> k \<and> k < m \<longrightarrow> \<not> bterm x k < 1 / 10 ^ 21"
    "bessel_loop (Fin x) (Fin (bsum x 1)) (Fin (fact 1)) 1 = Inr (Fin (bsum x m), m)"
    by auto
  from m(5) have l: "bessel_loop (Fin x) (Fin 1) (Fin 1) 1 = Inr (Fin (bsum x m), m)"
    by (simp add: bsum_def)
  then have "bessel_i0 (Fin x) = Inr (Fin (bsum x m))" by (simp add: bessel_i0_def)
  with m l show ?thesis by blast
qed

lemma bessel_i0_val:
  fixes x :: real
  assumes x: "\<bar>x\<bar> \<le> 50"
  shows "bessel_i0 (Fin x) = Inr (Fin (bessel_val x))"
    and "1 \<le> bessel_stop x" and "bessel_stop x \<le> 90"
    and "bterm x (bessel_stop x) < 1 / 10 ^ 21"
    and "\<And>k. 1 \<le> k \<Longrightarrow> k < bessel_stop x \<Longrightarrow> \<not> bterm x k < 1 / 10 ^ 21"
proof -
  from bessel_i0_run[OF x] obtain m where m: "1 \<le> m" "m \<le> 90" "bterm x m < 1 / 10 ^ 21"
    "\<forall>k. 1 \<le> k \<and> k < m \<longrightarrow> \<not> bterm x k < 1 / 10 ^ 21"
    "bessel_i0 (Fin x) = Inr (Fin (bsum x m))" by blast
  have eq: "bessel_stop x = m" unfolding bessel_stop_def
  proof (rule Least_equality)
    show "1 \<le> m \<and> bterm x m < 1 / 10 ^ 21" using m by simp
  next
    fix y assume "1 \<le> y \<and> bterm x y < 1 / 10 ^ 21"
    then show "m \<le> y" using m(4) by (meson not_le_imp_less)
  qed
  show "bessel_i0 (Fin x) = Inr (Fin (bessel_val x))" by (simp add: bessel_val_def eq m)
  show "1 \<le> bessel_stop x" "bessel_stop x \<le> 90" "bterm x (bessel_stop x) < 1 / 10 ^ 21"
    using m by (simp_all add: eq)
  show "\<And>k. 1 \<le> k \<Longrightarrow> k < bessel_stop x \<Longrightarrow> \<not> bterm x k < 1 / 10 ^ 21"
    using m(4) by (simp add: eq)
qed

lemma bsum_ge_1: "1 \<le> bsum x m"
  unfolding bsum_def by (simp add: sum_nonneg bterm_nonneg)

lemma bterm_mono:
  fixes a b :: real
  assumes "\<bar>a\<bar> \<le> \<bar>b\<bar>"
  shows "bterm a k \<le> bterm b k"
proof -
  have "\<bar>a / 2\<bar> \<le> \<bar>b / 2\<bar>" using assms by simp
  then have "(a / 2)\<^sup>2 \<le> (b / 2)\<^sup>2" by (rule abs_le_square_iff[THEN iffD1])
  then have "((a / 2)\<^sup>2) ^ k \<le> ((b / 2)\<^sup>2) ^ k" by (rule power_mono) simp
  then have "(a / 2) ^ (2 * k) \<le> (b / 2) ^ (2 * k)" by (simp add: power_mult)
  then show ?thesis unfolding bterm_def by (rule divide_right_mono) simp
qed

lemma bessel_val_mono:
  fixes a b :: real
  assumes ab: "\<bar>a\<bar> \<le> \<bar>b\<bar>" and b: "\<bar>b\<bar> \<le> 50"
  shows "bessel_val a \<le> bessel_val b"
proof -
  have a: "\<bar>a\<bar> \<le> 50" using ab b by simp
  let ?ma = "bessel_stop a" and ?mb = "bessel_stop b"
  have le: "?ma \<le> ?mb"
  proof (rule ccontr)
    assume "\<not> ?ma \<le> ?mb"
    then have "?mb < ?ma" by simp
    then have "\<not> bterm a ?mb < 1 / 10 ^ 21"
      using bessel_i0_val(5)[OF a, of ?mb] bessel_i0_val(2)[OF b] by simp
    moreover have "bterm a ?mb < 1 / 10 ^ 21"
      using bterm_mono[OF ab, of ?mb] bessel_i0_val(4)[OF b] by linarith
    ultimately show False by simp
  qed
  have "(\<Sum>k = 1..<?ma. bterm a k) \<le> (\<Sum>k = 1..<?ma. bterm b k)"
    by (rule sum_mono) (rule bterm_mono[OF ab])
  also have "\<dots> \<le> (\<Sum>k = 1..<?mb. bterm b k)"
    using le by (intro sum_mono2) (auto simp: bterm_nonneg)
  finally show ?thesis by (simp add: bessel_val_def bsum_def)
qed

lemma bessel_val_ge_1: "1 \<le> bessel_val x"
  by (simp add: bessel_val_def bsum_ge_1)

lemma bessel_loop_never:
  "(\<And>i f. 1 \<le> i \<Longrightarrow>
      \<not> d_less (d_div (d_pow (d_div x (Fin 2)) (i * 2)) (d_pow f 2)) (Fin (1 / 10 ^ 21))) \<Longrightarrow>
   1 \<le> i \<Longrightarrow> bessel_loop x i0 ifac i = Inl IntOverflow"
proof (induction x i0 ifac i rule: bessel_loop.induct)
  case (1 x i0 ifac i)
  have nd: "\<not> d_less (d_div (d_pow (d_div x (Fin 2)) (i * 2)) (d_pow ifac 2)) (Fin (1 / 10 ^ 21))"
    using "1.prems" by blast
  show ?case
  proof (cases "INT_MAX < int i * 2")
    case True
    then show ?thesis by (subst bessel_loop.simps) simp
  next
    case False
    have "bessel_loop x (d_add i0 (d_div (d_pow (d_div x (Fin 2)) (i * 2)) (d_pow ifac 2)))
        (d_mul ifac (d_of_int (int (i + 1)))) (i + 1) = Inl IntOverflow"
      using "1.IH"[OF False refl nd] "1.prems" by simp
    then show ?thesis
      using False nd by (subst bessel_loop.simps) (simp add: Let_def)
  qed
qed

lemma d_div_PInf_sq: "d_div PInf (d_pow f 2) = PInf \<or> d_div PInf (d_pow f 2) = NaN"
  by (cases f) (auto simp: rnd_def signed_inf_def)

lemma bessel_i0_NaN: "bessel_i0 NaN = Inl IntOverflow"
proof -
  have "bessel_loop NaN (Fin 1) (Fin 1) 1 = Inl IntOverflow"
    by (rule bessel_loop_never) auto
  then show ?thesis by (simp add: bessel_i0_def)
qed

lemma DBL_MAX_lt: "DBL_MAX < 2 ^ 1024"
  by (simp add: DBL_MAX_def)


section \<open>The window and the shape parameter\<close>

lemma DBL_MAX_pos: "0 < DBL_MAX"
  by (simp add: DBL_MAX_def)

lemma rnd_unit: "\<bar>r\<bar> \<le> 2 \<Longrightarrow> rnd r = Fin r"
  by (rule rnd_small) simp

lemma kaiser_outside: "n < 0 \<or> M < n \<Longrightarrow> kaiser alpha (Fin M) (Fin n) = Inr (Fin 0)"
  by (auto simp: kaiser_def)

lemma kaiser_arg_range:
  assumes "0 \<le> n" "n \<le> M" "0 < M"
  shows "0 \<le> 1 - (2 * n / M - 1)\<^sup>2" "kaiser_arg M n \<le> 1" "0 \<le> kaiser_arg M n"
    "\<bar>2 * n / M - 1\<bar> \<le> 1"
proof -
  have q: "0 \<le> 2 * n / M" "2 * n / M \<le> 2" using assms by (auto simp: field_simps)
  then show a: "\<bar>2 * n / M - 1\<bar> \<le> 1" by linarith
  then have "(2 * n / M - 1)\<^sup>2 \<le> 1" by (simp add: abs_square_le_1)
  then show "0 \<le> 1 - (2 * n / M - 1)\<^sup>2" by simp
  show "kaiser_arg M n \<le> 1" unfolding kaiser_arg_def
    by (rule real_le_lsqrt) auto
  show "0 \<le> kaiser_arg M n" unfolding kaiser_arg_def
    using \<open>0 \<le> 1 - (2 * n / M - 1)\<^sup>2\<close> by simp
qed

lemma kaiser_arg_eval:
  assumes "0 \<le> n" "n \<le> M" "0 < M" "2 * M \<le> DBL_MAX"
  shows "d_sqrt (d_sub (Fin 1) (d_pow (d_sub (d_div (d_mul (Fin 2) (Fin n)) (Fin M)) (Fin 1)) 2))
         = Fin (kaiser_arg M n)"
proof -
  note r = kaiser_arg_range[OF assms(1-3)]
  have q: "0 \<le> 2 * n / M" "2 * n / M \<le> 2" using assms by (auto simp: field_simps)
  have m: "d_mul (Fin 2) (Fin n) = Fin (2 * n)"
    using assms by (simp add: rnd_Fin)
  have d: "d_div (Fin (2 * n)) (Fin M) = Fin (2 * n / M)"
    using assms(3) q by (simp add: rnd_unit)
  have s: "d_sub (Fin (2 * n / M)) (Fin 1) = Fin (2 * n / M - 1)"
    using r(4) by (simp add: d_sub_def rnd_unit)
  have "(2 * n / M - 1)\<^sup>2 \<le> 1" using r(1) by simp
  then have p: "d_pow (Fin (2 * n / M - 1)) 2 = Fin ((2 * n / M - 1)\<^sup>2)"
    by (simp add: rnd_unit)
  have "\<bar>1 - (2 * n / M - 1)\<^sup>2\<bar> \<le> 2"
    using r(1) zero_le_power2[of "2 * n / M - 1"] by linarith
  then have "rnd (1 - (2 * n / M - 1)\<^sup>2) = Fin (1 - (2 * n / M - 1)\<^sup>2)"
    by (rule rnd_unit)
  then have s2: "d_sub (Fin 1) (Fin ((2 * n / M - 1)\<^sup>2)) = Fin (1 - (2 * n / M - 1)\<^sup>2)"
    by (simp add: d_sub_def)
  have "\<not> 1 - (2 * n / M - 1)\<^sup>2 < 0" using r(1) by simp
  then show ?thesis
    by (simp only: m d s p s2 d_sqrt.simps kaiser_arg_def if_False)
qed

lemma kaiser_inside:
  assumes a: "\<bar>alpha\<bar> \<le> 50" and n: "0 \<le> n" "n \<le> M" "0 < M" "2 * M \<le> DBL_MAX"
  shows "kaiser (Fin alpha) (Fin M) (Fin n) = Inr (Fin (kaiser_val alpha M n))"
    and "0 < kaiser_val alpha M n" and "kaiser_val alpha M n \<le> 1"
proof -
  note r = kaiser_arg_range[OF n(1-3)]
  have le: "\<bar>alpha * kaiser_arg M n\<bar> \<le> \<bar>alpha\<bar>"
    using r(2,3) by (simp add: abs_mult mult_left_le)
  then have b: "\<bar>alpha * kaiser_arg M n\<bar> \<le> 50" using a by linarith
  have m: "d_mul (Fin alpha) (Fin (kaiser_arg M n)) = Fin (alpha * kaiser_arg M n)"
    using b by (simp add: rnd_small)
  have v1: "1 \<le> bessel_val (alpha * kaiser_arg M n)" and v2: "1 \<le> bessel_val alpha"
    by (rule bessel_val_ge_1)+
  have v3: "bessel_val (alpha * kaiser_arg M n) \<le> bessel_val alpha"
    using le a by (rule bessel_val_mono)
  show pos: "0 < kaiser_val alpha M n" unfolding kaiser_val_def using v1 v2 by simp
  show le1: "kaiser_val alpha M n \<le> 1" unfolding kaiser_val_def using v2 v3 by simp
  have "rnd (kaiser_val alpha M n) = Fin (kaiser_val alpha M n)"
    using pos le1 by (intro rnd_unit) simp
  then have d: "d_div (Fin (bessel_val (alpha * kaiser_arg M n))) (Fin (bessel_val alpha))
      = Fin (kaiser_val alpha M n)"
    using v2 by (simp add: kaiser_val_def)
  have out: "\<not> (d_less (Fin n) (Fin 0) \<or> d_less (Fin M) (Fin n))" using n by simp
  show "kaiser (Fin alpha) (Fin M) (Fin n) = Inr (Fin (kaiser_val alpha M n))"
    unfolding kaiser_def
    by (simp only: out if_False kaiser_arg_eval[OF n] m bessel_i0_val(1)[OF b]
          bessel_i0_val(1)[OF a] sum.case d)
qed

lemma bessel_val_0: "bessel_val 0 = 1"
proof -
  have "bessel_stop 0 = 1" unfolding bessel_stop_def
    by (rule Least_equality) (auto simp: bterm_def)
  then show ?thesis by (simp add: bessel_val_def bsum_def)
qed


lemma powr_29_bounds: "3.845 < (29::real) powr 0.4 \<and> (29::real) powr 0.4 < 3.846"
proof -
  define x where "x = (29::real) powr 0.4"
  have x0: "0 < x" by (simp add: x_def)
  have "x ^ 5 = x powr (of_nat 5)" using x0 by (subst powr_realpow) auto
  also have "\<dots> = 29 powr 2" by (simp add: x_def powr_powr)
  also have "\<dots> = 841" by simp
  finally have x5: "x ^ 5 = 841" .
  have "(3.845::real) ^ 5 < 841" by (simp add: power_divide)
  then have lo: "(3.845::real) ^ 5 < x ^ 5" by (simp only: x5)
  have "841 < (3.846::real) ^ 5" by (simp add: power_divide)
  then have hi: "x ^ 5 < (3.846::real) ^ 5" by (simp only: x5)
  have "3.845 < x" using lo x0 power_less_imp_less_base[of "3.845" 5 x] by simp
  moreover have "x < 3.846" using hi power_less_imp_less_base[of x 5 "3.846"] by simp
  ultimately show ?thesis unfolding x_def by simp
qed

lemma kaiser_dB_mid_21: "kaiser_dB_mid (Fin 21) = Fin 0"
  by (simp add: kaiser_dB_mid_def d_sub_def rnd_small)

lemma kaiser_dB_mid_50: "kaiser_dB_mid (Fin 50) = Fin (0.5842 * (29 powr 0.4) + 0.07886 * 29)"
proof -
  have b: "\<bar>(29::real) powr 0.4\<bar> \<le> 4" using powr_29_bounds by simp
  have r1: "rnd (29 powr 0.4) = Fin (29 powr 0.4)" by (rule rnd_small) (use b in simp)
  have r2: "rnd (0.5842 * (29 powr 0.4)) = Fin (0.5842 * (29 powr 0.4))"
    by (rule rnd_small) (use b in simp)
  have r3: "rnd (0.5842 * (29 powr 0.4) + 0.07886 * 29) = Fin (0.5842 * (29 powr 0.4) + 0.07886 * 29)"
    by (rule rnd_small) (use b in simp)
  show ?thesis
    using r1 r2 r3 by (simp add: kaiser_dB_mid_def d_sub_def rnd_small)
qed

lemma kaiser_dB_hi_50: "kaiser_dB_hi (Fin 50) = Fin 4.55126"
  by (simp add: kaiser_dB_hi_def d_sub_def rnd_small)

lemma kaiser_dB_80: "kaiser_dB (Fin 80) = Fin 7.85726"
  by (simp add: kaiser_dB_def kaiser_dB_hi_def d_sub_def rnd_small)


section \<open>The filter table in closed form\<close>

lemma collect_map_Inr:
  "(\<And>x. x \<in> set xs \<Longrightarrow> f x = Inr (g x)) \<Longrightarrow> collect (map f xs) = Inr (map g xs)"
  by (induction xs) auto

lemma pow31_le_DBL_MAX: "2 * (2 * (2 ^ 31)) \<le> DBL_MAX"
  by (simp add: DBL_MAX_def)

lemma kaiser_table_ok:
  assumes a: "\<bar>alpha\<bar> \<le> 50" and len: "2 \<le> len" "len \<le> 2 ^ 30" and ok: "ok (nat len) 8"
  shows "kaiser_table ok (Fin alpha) len =
    Inr (Some (map (\<lambda>i. Fin (kaiser_val alpha (of_int ((len - 1) * 2)) (of_int (len - i - 1))))
                [0..len - 1]))"
proof -
  have c: "c_calloc ok len 8" using len ok by (simp add: c_calloc_def)
  have fM: "fits_int ((len - 1) * 2)" using len by (simp add: fits_int_def INT_MAX_def)
  have M: "2 * real_of_int ((len - 1) * 2) \<le> DBL_MAX"
  proof -
    have "real_of_int ((len - 1) * 2) \<le> real_of_int (2 * (2 ^ 31))"
      using len by (intro of_int_le_iff[THEN iffD2]) simp
    then show ?thesis using pow31_le_DBL_MAX by simp
  qed
  have each: "\<And>i. i \<in> set [0..len - 1] \<Longrightarrow>
      kaiser (Fin alpha) (d_of_int ((len - 1) * 2)) (d_of_int (len - i - 1)) =
      Inr (Fin (kaiser_val alpha (of_int ((len - 1) * 2)) (of_int (len - i - 1))))"
  proof -
    fix i assume "i \<in> set [0..len - 1]"
    then have i: "0 \<le> i" "i \<le> len - 1" by auto
    show "kaiser (Fin alpha) (d_of_int ((len - 1) * 2)) (d_of_int (len - i - 1)) =
      Inr (Fin (kaiser_val alpha (of_int ((len - 1) * 2)) (of_int (len - i - 1))))"
      unfolding d_of_int_def
    proof (rule kaiser_inside(1)[OF a _ _ _ M])
      show "0 \<le> real_of_int (len - i - 1)" using i by simp
      show "real_of_int (len - i - 1) \<le> real_of_int ((len - 1) * 2)"
        using i len by (intro of_int_le_iff[THEN iffD2]) simp
      show "0 < real_of_int ((len - 1) * 2)" using len by simp
    qed
  qed
  show ?thesis
    unfolding kaiser_table_def Let_def
    by (simp only: c fM not_True_eq_False if_False collect_map_Inr[of _ _ _, OF each] sum.case)
qed

lemma sinc_val_bound: "\<bar>sinc_val res i\<bar> \<le> 1"
proof -
  define s :: real where "s = of_int i / of_int res * pi"
  have "\<bar>sin s / s\<bar> \<le> 1"
  proof (cases "s = 0")
    case True
    then show ?thesis by simp
  next
    case False
    then have "0 < \<bar>s\<bar>" by simp
    then show ?thesis
      using abs_sin_x_le_abs_x[of s] by (simp only: abs_divide divide_le_eq_1_pos)
  qed
  then show ?thesis by (simp only: sinc_val_def s_def)
qed

lemma sinc_eval:
  assumes i: "1 \<le> i" "i \<le> 2 ^ 31" and res: "1 \<le> res"
  shows "(let sinc = d_mul (d_div (d_of_int i) (d_of_int res)) (Fin pi)
          in d_div (d_sin sinc) sinc) = Fin (sinc_val res i)"
proof -
  have q: "0 < real_of_int i / real_of_int res" using i res by simp
  have "real_of_int i / real_of_int res \<le> real_of_int i"
    using i res by (simp add: divide_le_eq mult_le_cancel_left1)
  also have "\<dots> \<le> 2 ^ 31" using i(2) by (metis of_int_le_iff of_int_numeral of_int_power)
  finally have qb: "real_of_int i / real_of_int res \<le> 2 ^ 31" .
  have d: "d_div (d_of_int i) (d_of_int res) = Fin (real_of_int i / real_of_int res)"
    using res q qb by (simp add: d_of_int_def rnd_small)
  have "real_of_int i / real_of_int res * pi \<le> 2 ^ 31 * 4"
    using qb q pi_less_4 by (intro mult_mono) auto
  moreover have "0 \<le> real_of_int i / real_of_int res * pi"
    using q pi_gt_zero by (intro mult_nonneg_nonneg) (simp_all only: less_imp_le)
  ultimately have "rnd (real_of_int i / real_of_int res * pi)
      = Fin (real_of_int i / real_of_int res * pi)"
    by (intro rnd_le[of _ "2 ^ 31 * 4"]) simp_all
  then have m: "d_mul (Fin (real_of_int i / real_of_int res)) (Fin pi)
      = Fin (real_of_int i / real_of_int res * pi)"
    by (simp only: d_mul.simps)
  have nz: "real_of_int i / real_of_int res * pi \<noteq> 0" using i res by simp
  have "rnd (sinc_val res i) = Fin (sinc_val res i)"
    using sinc_val_bound[of res i] by (intro rnd_unit) simp
  then have "d_div (Fin (sin (real_of_int i / real_of_int res * pi)))
      (Fin (real_of_int i / real_of_int res * pi)) = Fin (sinc_val res i)"
    using nz by (simp only: d_div.simps if_False sinc_val_def)
  then show ?thesis by (simp only: Let_def d m d_sin.simps)
qed

lemma h_val_bound:
  assumes a: "\<bar>alpha\<bar> \<le> 50" and len: "2 \<le> len" "len \<le> 2 ^ 31" and i: "0 \<le> i" "i \<le> len - 1"
  shows "\<bar>h_val alpha res len i\<bar> \<le> 1"
proof (cases "i = 0")
  case True
  then show ?thesis by (simp add: h_val_def)
next
  case False
  have M: "2 * real_of_int ((len - 1) * 2) \<le> DBL_MAX"
  proof -
    have "real_of_int ((len - 1) * 2) \<le> real_of_int (2 * (2 ^ 31))"
      using len by (intro of_int_le_iff[THEN iffD2]) simp
    then show ?thesis using pow31_le_DBL_MAX by simp
  qed
  have n1: "0 \<le> real_of_int (len - i - 1)" using i by simp
  have n2: "real_of_int (len - i - 1) \<le> real_of_int ((len - 1) * 2)"
    using i len by (intro of_int_le_iff[THEN iffD2]) simp
  have n3: "0 < real_of_int ((len - 1) * 2)" using len by simp
  note k = kaiser_inside(2,3)[OF a n1 n2 n3 M]
  have "\<bar>kaiser_val alpha (of_int ((len - 1) * 2)) (of_int (len - i - 1)) * sinc_val res i\<bar>
      \<le> 1 * 1"
    unfolding abs_mult using k sinc_val_bound[of res i] by (intro mult_mono) auto
  then show ?thesis using False by (simp add: h_val_def)
qed

lemma nth_map_upto: "k < nat len \<Longrightarrow> map f [0..len - 1] ! k = f (int k)"
  by (simp add: nth_upto)

lemma filter_table_ok:
  assumes a: "\<bar>alpha\<bar> \<le> 50" and len30: "2 \<le> len" "len \<le> 2 ^ 30" and res: "1 \<le> res"
    and ok: "ok (nat len) 8"
  shows "filter_table ok (Fin alpha) res len =
    Inr (map (\<lambda>i. Fin (h_val alpha res len i)) [0..len - 1],
         map (\<lambda>i. Fin (hb_val alpha res len i)) [0..len - 1])"
proof -
  have len: "2 \<le> len" "len \<le> 2 ^ 31" using len30 by simp_all
  define K where "K i = kaiser_val alpha (of_int ((len - 1) * 2)) (of_int (len - i - 1))" for i
  define h0 where "h0 = map (\<lambda>i. Fin (K i)) [0..len - 1]"
  define h1 where "h1 = map (\<lambda>i. if 1 \<le> i
        then (let sinc = d_mul (d_div (d_of_int i) (d_of_int res)) (Fin pi)
              in d_mul (h0 ! nat i) (d_div (d_sin sinc) sinc))
        else h0 ! nat i) [0..len - 1]"
  define h where "h = h1[0 := Fin 1]"
  have c: "c_calloc ok len 8" using len ok by (simp add: c_calloc_def)
  have kt: "kaiser_table ok (Fin alpha) len = Inr (Some h0)"
    unfolding h0_def K_def using a len30 ok by (rule kaiser_table_ok[of alpha len ok])
  have hv: "h = map (\<lambda>i. Fin (h_val alpha res len i)) [0..len - 1]"
  proof (rule nth_equalityI)
    show "length h = length (map (\<lambda>i. Fin (h_val alpha res len i)) [0..len - 1])"
      by (simp add: h_def h1_def)
  next
    fix k assume "k < length h"
    then have k: "k < nat len" using len by (simp add: h_def h1_def)
    show "h ! k = map (\<lambda>i. Fin (h_val alpha res len i)) [0..len - 1] ! k"
    proof (cases "k = 0")
      case True
      then show ?thesis using k by (simp add: h_def h1_def nth_map_upto h_val_def)
    next
      case False
      then have i: "1 \<le> int k" "int k \<le> 2 ^ 31" "0 \<le> int k" "int k \<le> len - 1"
        using k len by auto
      have h0k: "h0 ! k = Fin (K (int k))"
        using k by (simp add: h0_def nth_map_upto)
      have kb: "0 < K (int k)" "K (int k) \<le> 1"
      proof -
        have M: "2 * real_of_int ((len - 1) * 2) \<le> DBL_MAX"
        proof -
          have "real_of_int ((len - 1) * 2) \<le> real_of_int (2 * (2 ^ 31))"
            using len by (intro of_int_le_iff[THEN iffD2]) simp
          then show ?thesis using pow31_le_DBL_MAX by simp
        qed
        have n1: "0 \<le> real_of_int (len - int k - 1)" using i by simp
        have n2: "real_of_int (len - int k - 1) \<le> real_of_int ((len - 1) * 2)"
          using i len by (intro of_int_le_iff[THEN iffD2]) simp
        have n3: "0 < real_of_int ((len - 1) * 2)" using len by simp
        show "0 < K (int k)" "K (int k) \<le> 1"
          unfolding K_def using kaiser_inside(2,3)[OF a n1 n2 n3 M] by simp_all
      qed
      have "\<bar>K (int k) * sinc_val res (int k)\<bar> \<le> 1 * 1"
        unfolding abs_mult using kb sinc_val_bound[of res "int k"] by (intro mult_mono) auto
      then have "rnd (K (int k) * sinc_val res (int k)) = Fin (K (int k) * sinc_val res (int k))"
        by (intro rnd_unit) simp
      then have "h1 ! k = Fin (K (int k) * sinc_val res (int k))"
        using k i(1) sinc_eval[OF i(1,2) res]
        by (simp add: h1_def nth_map_upto h0k Let_def)
      then show ?thesis
        using False k by (simp add: h_def nth_map_upto h_val_def K_def)
    qed
  qed
  have hb: "map (\<lambda>i. if i < len - 1 then d_sub (h ! nat (i + 1)) (h ! nat i) else Fin 0)
      [0..len - 1] = map (\<lambda>i. Fin (hb_val alpha res len i)) [0..len - 1]"
  proof (rule map_cong[OF refl])
    fix i assume "i \<in> set [0..len - 1]"
    then have i: "0 \<le> i" "i \<le> len - 1" by auto
    show "(if i < len - 1 then d_sub (h ! nat (i + 1)) (h ! nat i) else Fin 0)
        = Fin (hb_val alpha res len i)"
    proof (cases "i < len - 1")
      case True
      have e1: "h ! nat (i + 1) = Fin (h_val alpha res len (i + 1))"
        using True i unfolding hv by (subst nth_map_upto) auto
      have e2: "h ! nat i = Fin (h_val alpha res len i)"
        using True i unfolding hv by (subst nth_map_upto) auto
      have "\<bar>h_val alpha res len (i + 1)\<bar> \<le> 1" "\<bar>h_val alpha res len i\<bar> \<le> 1"
        using h_val_bound[OF a len, of "i + 1" res] h_val_bound[OF a len, of i res] True i
        by auto
      then have "rnd (h_val alpha res len (i + 1) - h_val alpha res len i)
          = Fin (h_val alpha res len (i + 1) - h_val alpha res len i)"
        by (intro rnd_unit) linarith
      then show ?thesis using True by (simp add: e1 e2 d_sub_def hb_val_def)
    next
      case False
      then show ?thesis by (simp add: hb_val_def)
    qed
  qed
  have l1: "\<not> len < 1" using len by simp
  have ft: "filter_table ok (Fin alpha) res len =
      Inr (h, map (\<lambda>i. if i < len - 1 then d_sub (h ! nat (i + 1)) (h ! nat i) else Fin 0)
                [0..len - 1])"
    unfolding filter_table_def h_def h1_def
    by (simp only: kt sum.case option.case l1 if_False Let_def c not_True_eq_False)
  show ?thesis
    unfolding ft hb by (simp only: hv)
qed

lemma L_val: "L = 512"
  by (simp add: L_def n_l_def n_c_def)

lemma N_h_val: "N_h = 2561"
  by (simp add: N_h_def L_val N_z_def)

section \<open>The loop body as an accumulation\<close>

lemma L_pos: "0 < L" by (simp add: L_val)

lemma wing_guard: "0 \<le> i \<Longrightarrow> (l + i * L < N_h) = (i \<le> wing_last l)"
  unfolding wing_last_def L_val N_h_val by (auto simp: zdiv_int)

lemma left_wing_acc16:
  "0 \<le> i \<Longrightarrow> left_wing xs h hb eta l n i v =
     acc16 v (map (\<lambda>i. wing_term xs h hb eta (n - i) (l + i * L)) [i..wing_last l])"
proof (induction xs h hb eta l n i v rule: left_wing.induct)
  case (1 xs h hb eta l n i v)
  show ?case
  proof (cases "l + i * L < N_h")
    case False
    then have "\<not> i \<le> wing_last l" using wing_guard[OF "1.prems"] by simp
    then have "[i..wing_last l] = []" by simp
    then show ?thesis using False by (subst left_wing.simps) simp
  next
    case True
    then have le: "i \<le> wing_last l" using wing_guard[OF "1.prems"] by simp
    then have u: "[i..wing_last l] = i # [i + 1..wing_last l]" by (rule upto_rec1)
    have step: "left_wing xs h hb eta l n i v =
        (case wing_term xs h hb eta (n - i) (l + i * L) of
           Inl e \<Rightarrow> Inl e
         | Inr d \<Rightarrow> (case add16 v d of Inl e \<Rightarrow> Inl e
                     | Inr v' \<Rightarrow> left_wing xs h hb eta l n (i + 1) v'))"
      by (subst left_wing.simps) (simp add: True wing_term_def add16_def split: sum.splits)
    show ?thesis
      unfolding step u list.map acc16.simps
      using "1.IH"[OF True] "1.prems"
      by (auto simp: wing_term_def add16_def split: sum.splits)
  qed
qed

lemma right_wing_acc16:
  "0 \<le> i \<Longrightarrow> right_wing xs h hb eta l n i v =
     acc16 v (map (\<lambda>i. wing_term xs h hb eta (n + 1 + i) (l + i * L)) [i..wing_last l])"
proof (induction xs h hb eta l n i v rule: right_wing.induct)
  case (1 xs h hb eta l n i v)
  show ?case
  proof (cases "l + i * L < N_h")
    case False
    then have "\<not> i \<le> wing_last l" using wing_guard[OF "1.prems"] by simp
    then have "[i..wing_last l] = []" by simp
    then show ?thesis using False by (subst right_wing.simps) simp
  next
    case True
    then have le: "i \<le> wing_last l" using wing_guard[OF "1.prems"] by simp
    then have u: "[i..wing_last l] = i # [i + 1..wing_last l]" by (rule upto_rec1)
    have step: "right_wing xs h hb eta l n i v =
        (case wing_term xs h hb eta (n + 1 + i) (l + i * L) of
           Inl e \<Rightarrow> Inl e
         | Inr d \<Rightarrow> (case add16 v d of Inl e \<Rightarrow> Inl e
                     | Inr v' \<Rightarrow> right_wing xs h hb eta l n (i + 1) v'))"
      by (subst right_wing.simps) (simp add: True wing_term_def add16_def split: sum.splits)
    show ?thesis
      unfolding step u list.map acc16.simps
      using "1.IH"[OF True] "1.prems"
      by (auto simp: wing_term_def add16_def split: sum.splits)
  qed
qed

lemma acc16_append:
  "acc16 v (ts @ us) = (case acc16 v ts of Inl e \<Rightarrow> Inl e | Inr v' \<Rightarrow> acc16 v' us)"
  by (induction ts arbitrary: v) (auto split: sum.splits)

section \<open>Runs of the program\<close>

lemma resamp_loop_length:
  "resamp_loop c h hb y_len j t y = Inr y' \<Longrightarrow> length y' = length y"
proof (induction c h hb y_len j t y rule: resamp_loop.induct)
  case (1 c h hb y_len j t y)
  show ?case
  proof (cases "j < y_len")
    case False
    then show ?thesis using "1.prems" by (subst (asm) resamp_loop.simps) simp
  next
    case True
    from "1.prems" obtain v where v: "sample c h hb t = Inr v"
      and r: "resamp_loop c h hb y_len (j + 1) (d_add t (d_div (Fin 1) (d_of_int (c_Fsp c))))
                (y[nat j := v]) = Inr y'"
      by (subst (asm) resamp_loop.simps) (auto simp: True split: sum.splits)
    show ?thesis using "1.IH"[OF True v r] by simp
  qed
qed

lemma bi_resamp_Done:
  assumes "bi_resamp w inp out rate = (Done, p)"
  obtains c h hb y f where
    "read_input w inp rate = Inr c"
    "filter_table (calloc_ok w) (kaiser_dB (Fin 80)) L N_h = Inr (h, hb)"
    "resample w c h hb = Inr y"
    "write_output w out c y = Inr f"
    "p = \<lparr>x_buf = Some (c_x c), tables = Some (h, hb), y_buf = Some y, out_file = Some f\<rparr>"
  using assms unfolding bi_resamp_def by (auto split: sum.splits prod.splits)

lemma bi_resamp_tables:
  assumes "tables (snd (bi_resamp w inp out rate)) = Some tb"
  shows "filter_table (calloc_ok w) (kaiser_dB (Fin 80)) L N_h = Inr tb"
  using assms unfolding bi_resamp_def by (auto simp: start_def split: sum.splits prod.splits)

lemma read_input_info:
  assumes "read_input w inp rate = Inr c"
  obtains f where "files w inp = Some f" "c_sfinfo c = info f" "c_Fsp c = rate"
    "c_Fs c = samplerate (info f)"
  using assms unfolding read_input_def Let_def
  by (auto split: option.splits sum.splits if_splits prod.splits)

lemma c_div_floor: "0 \<le> a \<Longrightarrow> 0 < b \<Longrightarrow> c_div a b = a div b"
  by (cases "a = 0") (auto simp: c_div_def)

lemma d_to_sint_Inr: "d_to_sint w (d_of_int k) = Inr m \<Longrightarrow> m = k"
  by (auto simp: d_of_int_def trunc_def split: if_splits)

lemma resample_length:
  assumes "resample w c h hb = Inr y"
  shows "y_length (c_sfinfo c) (c_Fsp c) = Inr (int (length y))"
proof -
  from assms obtain y_len where yl: "y_length (c_sfinfo c) (c_Fsp c) = Inr y_len"
    and ok: "c_calloc (calloc_ok w) y_len 2"
    and r: "resamp_loop c h hb y_len 0 (Fin 0) (replicate (nat y_len) 0) = Inr y"
    unfolding resample_def by (auto split: sum.splits if_splits)
  have "length y = nat y_len" using resamp_loop_length[OF r] by simp
  moreover have "0 \<le> y_len" using ok by (simp add: c_calloc_def)
  ultimately show ?thesis using yl by simp
qed

lemma trunc_of_int: "trunc (of_int k) = k"
  by (simp add: trunc_def)

lemma extra_defined:
  assumes "1 \<le> rate" "1 \<le> Fs" "Fs \<le> 2 ^ 26" "rate \<le> 2 ^ 31"
  shows "(if d_less (d_div (d_of_int rate) (d_of_int Fs)) (Fin 1)
          then (if fits_int (N_z * Fs)
                then d_to_sint 32 (d_ceil (d_div (d_of_int (N_z * Fs)) (d_of_int rate)))
                else Inl IntOverflow)
          else Inr N_z)
         = Inr (if rate < Fs then \<lceil>real_of_int (5 * Fs) / real_of_int rate\<rceil> else 5)"
    and "5 \<le> (if rate < Fs then \<lceil>real_of_int (5 * Fs) / real_of_int rate\<rceil> else 5)"
    and "(if rate < Fs then \<lceil>real_of_int (5 * Fs) / real_of_int rate\<rceil> else 5) \<le> 5 * 2 ^ 26"
proof -
  let ?q = "real_of_int (5 * Fs) / real_of_int rate"
  have q0: "0 \<le> ?q" using assms by simp
  have "?q \<le> real_of_int (5 * Fs)"
    using assms by (simp add: divide_le_eq mult_le_cancel_left1)
  also have "\<dots> \<le> real_of_int (5 * 2 ^ 26)"
    using assms(3) by (intro of_int_le_iff[THEN iffD2]) simp
  finally have qb: "?q \<le> 5 * 2 ^ 26" by simp
  have cb: "\<lceil>?q\<rceil> \<le> 5 * 2 ^ 26" using qb by (simp add: ceiling_le_iff)
  have c0: "0 \<le> \<lceil>?q\<rceil>" using q0 by simp
  show u: "(if rate < Fs then \<lceil>?q\<rceil> else 5) \<le> 5 * 2 ^ 26" using cb by simp
  show "5 \<le> (if rate < Fs then \<lceil>?q\<rceil> else 5)"
  proof (cases "rate < Fs")
    case True
    then have "real_of_int (5 * rate) < real_of_int (5 * Fs)" by simp
    then have "5 < ?q" using assms(1) by (simp add: less_divide_eq)
    then show ?thesis using True by (simp add: le_ceiling_iff)
  qed simp
  have rho: "d_div (d_of_int rate) (d_of_int Fs) = Fin (real_of_int rate / real_of_int Fs)"
  proof -
    have "0 \<le> real_of_int rate / real_of_int Fs" using assms by simp
    have "real_of_int rate / real_of_int Fs \<le> real_of_int rate"
      using assms by (simp add: divide_le_eq mult_le_cancel_left1)
    also have "\<dots> \<le> 2 ^ 31"
      using assms(4) by (metis of_int_le_iff of_int_numeral of_int_power)
    finally have "real_of_int rate / real_of_int Fs \<le> 2 ^ 31" .
    with \<open>0 \<le> real_of_int rate / real_of_int Fs\<close>
    have "rnd (real_of_int rate / real_of_int Fs) = Fin (real_of_int rate / real_of_int Fs)"
      by (intro rnd_le[of _ "2 ^ 31"]) simp_all
    then show ?thesis using assms(2) by (simp add: d_of_int_def)
  qed
  show "(if d_less (d_div (d_of_int rate) (d_of_int Fs)) (Fin 1)
          then (if fits_int (N_z * Fs)
                then d_to_sint 32 (d_ceil (d_div (d_of_int (N_z * Fs)) (d_of_int rate)))
                else Inl IntOverflow)
          else Inr N_z)
         = Inr (if rate < Fs then \<lceil>?q\<rceil> else 5)"
  proof (cases "rate < Fs")
    case True
    then have lt: "real_of_int rate / real_of_int Fs < 1" using assms by simp
    have fi: "fits_int (N_z * Fs)" using assms by (simp add: fits_int_def N_z_def INT_MAX_def)
    have "rnd ?q = Fin ?q" using q0 qb by (intro rnd_le[of _ "5 * 2 ^ 26"]) simp_all
    then have dq: "d_div (d_of_int (N_z * Fs)) (d_of_int rate) = Fin ?q"
      using assms(1) by (simp add: d_of_int_def N_z_def)
    have "d_to_sint 32 (d_ceil (Fin ?q)) = Inr \<lceil>?q\<rceil>"
      using c0 cb by (simp add: trunc_of_int)
    then show ?thesis using True lt fi by (simp only: rho dq d_less.simps if_True)
  next
    case False
    then have "\<not> real_of_int rate / real_of_int Fs < 1" using assms by simp
    then show ?thesis using False by (simp only: rho d_less.simps if_False N_z_def)
  qed
qed

lemma filter_table_calloc:
  assumes "filter_table ok alpha res len = Inr tb"
  shows "c_calloc ok len 8"
  using assms unfolding filter_table_def kaiser_table_def Let_def
  by (auto split: sum.splits option.splits if_splits)

lemma sample_acc16:
  assumes "sample_terms c h hb t = Inr ts"
  shows "sample c h hb t = acc16 0 ts"
  using assms
  unfolding sample_def sample_terms_def Let_def
  by (auto simp: left_wing_acc16 right_wing_acc16 left_terms_def right_terms_def acc16_append
        split: sum.splits)

lemma alpha80_bound: "\<bar>alpha80\<bar> \<le> 50"
  by (simp add: alpha80_def)

lemma kaiser_dB_80_alpha: "kaiser_dB (Fin 80) = Fin alpha80"
  by (simp add: kaiser_dB_80 alpha80_def)

lemma program_tables:
  assumes "ok (nat N_h) 8"
  shows "filter_table ok (kaiser_dB (Fin 80)) L N_h = Inr (h_tab, hb_tab)"
  unfolding kaiser_dB_80_alpha h_tab_def hb_tab_def
  using alpha80_bound assms by (intro filter_table_ok) (simp_all add: L_val N_h_val)

lemma tab_length: "length h_tab = 2561" "length hb_tab = 2561"
  by (simp_all add: h_tab_def hb_tab_def N_h_val)

lemma h_tab_nth:
  assumes "0 \<le> m" "m \<le> 2560"
  shows "c_nth h_tab m = Inr (Fin (h_val alpha80 L N_h m))"
    and "\<bar>h_val alpha80 L N_h m\<bar> \<le> 1"
proof -
  have "nat m < nat N_h" using assms by (simp add: N_h_val)
  then have "h_tab ! nat m = Fin (h_val alpha80 L N_h (int (nat m)))"
    unfolding h_tab_def by (rule nth_map_upto)
  then show "c_nth h_tab m = Inr (Fin (h_val alpha80 L N_h m))"
    using assms by (simp add: c_nth_def tab_length)
  show "\<bar>h_val alpha80 L N_h m\<bar> \<le> 1"
    using assms by (intro h_val_bound[OF alpha80_bound]) (simp_all add: N_h_val)
qed

lemma hb_tab_nth:
  assumes "0 \<le> m" "m \<le> 2560"
  shows "c_nth hb_tab m = Inr (Fin (hb_val alpha80 L N_h m))"
    and "\<bar>hb_val alpha80 L N_h m\<bar> \<le> 2"
proof -
  have "nat m < nat N_h" using assms by (simp add: N_h_val)
  then have "hb_tab ! nat m = Fin (hb_val alpha80 L N_h (int (nat m)))"
    unfolding hb_tab_def by (rule nth_map_upto)
  then show "c_nth hb_tab m = Inr (Fin (hb_val alpha80 L N_h m))"
    using assms by (simp add: c_nth_def tab_length)
  show "\<bar>hb_val alpha80 L N_h m\<bar> \<le> 2"
  proof (cases "m < N_h - 1")
    case True
    then have "\<bar>h_val alpha80 L N_h (m + 1)\<bar> \<le> 1" "\<bar>h_val alpha80 L N_h m\<bar> \<le> 1"
      using assms by (auto intro!: h_val_bound[OF alpha80_bound] simp: N_h_val)
    then show ?thesis using True by (simp add: hb_val_def)
  next
    case False
    then show ?thesis by (simp add: hb_val_def)
  qed
qed

text \<open>The coefficient that multiplies a sample: \<open>h[m] + eta * hb[m]\<close>.\<close>

lemma coeff_eval:
  assumes m: "0 \<le> m" "m \<le> 2560" and e: "\<bar>e\<bar> \<le> 1"
  shows "\<exists>a b. c_nth h_tab m = Inr (Fin a) \<and> c_nth hb_tab m = Inr (Fin b) \<and>
           a = h_val alpha80 L N_h m \<and> b = hb_val alpha80 L N_h m \<and>
           d_add (Fin a) (d_mul (Fin e) (Fin b)) = Fin (a + e * b) \<and> \<bar>a + e * b\<bar> \<le> 3"
proof -
  let ?a = "h_val alpha80 L N_h m" and ?b = "hb_val alpha80 L N_h m"
  note a = h_tab_nth[OF m] and b = hb_tab_nth[OF m]
  have "\<bar>e * ?b\<bar> \<le> 1 * 2" unfolding abs_mult using e b(2) by (intro mult_mono) auto
  then have eb: "\<bar>e * ?b\<bar> \<le> 2" by simp
  then have r1: "rnd (e * ?b) = Fin (e * ?b)" by (rule rnd_unit)
  have s: "\<bar>?a + e * ?b\<bar> \<le> 3" using a(2) eb by linarith
  then have r2: "rnd (?a + e * ?b) = Fin (?a + e * ?b)" by (intro rnd_small) simp
  show ?thesis using a(1) b(1) r1 r2 s by simp
qed

lemma short_to_double_0: "short_to_double 0 = Fin 0"
  by (simp add: short_to_double_def)

lemma wing_term_silent:
  assumes m: "0 \<le> m" "m \<le> 2560" and e: "\<bar>e\<bar> \<le> 1"
    and k: "0 \<le> k" "k < int (length xs)" and z: "\<forall>x \<in> set xs. x = 0"
  shows "wing_term xs h_tab hb_tab (Fin e) k m = Inr (Fin 0)"
proof -
  from coeff_eval[OF m e] obtain a b where ab: "c_nth h_tab m = Inr (Fin a)"
    "c_nth hb_tab m = Inr (Fin b)" "d_add (Fin a) (d_mul (Fin e) (Fin b)) = Fin (a + e * b)"
    by blast
  have "xs ! nat k = 0" using k z by simp
  then have x: "c_nth xs k = Inr 0" using k by (simp add: c_nth_def)
  show ?thesis
    unfolding wing_term_def
    by (simp only: x ab sum.case short_to_double_0) (simp add: rnd_unit)
qed

lemma short_range: "- (2 ^ 15) \<le> sint (v :: short)" "sint (v :: short) < 2 ^ 15"
  using sint_ge[of v] sint_lt[of v] by simp_all

lemma add16_int:
  assumes "d = Fin (real_of_int k)" "- (2 ^ 15) \<le> sint v + k" "sint v + k < 2 ^ 15"
  shows "add16 v d = Inr (word_of_int (sint v + k))"
proof -
  have "\<bar>real_of_int (sint v + k)\<bar> \<le> real_of_int (2 ^ 15)"
    using assms(2,3) by (subst of_int_abs[symmetric], subst of_int_le_iff) simp
  then have "rnd (real_of_int (sint v + k)) = Fin (real_of_int (sint v + k))"
    by (intro rnd_small) simp
  then have a: "d_add (short_to_double v) d = Fin (real_of_int (sint v + k))"
    by (simp only: short_to_double_def assms(1) d_add.simps of_int_add)
  have "d_to_sint 16 (Fin (real_of_int (sint v + k))) = Inr (sint v + k)"
    using assms(2,3) by (simp only: d_to_sint.simps trunc_of_int) simp
  then show ?thesis by (simp only: add16_def a d_to_short_def sum.case)
qed

lemma add16_0: "add16 v (Fin 0) = Inr v"
  using add16_int[of "Fin 0" 0 v] short_range[of v] by simp

lemma acc16_silent: "\<forall>t \<in> set ts. t = Inr (Fin 0) \<Longrightarrow> acc16 v ts = Inr v"
  by (induction ts) (simp_all add: add16_0)

lemma wing_last_bound: "0 \<le> l \<Longrightarrow> 0 \<le> i \<Longrightarrow> i \<le> wing_last l \<Longrightarrow> l + i * L \<le> 2560"
  using wing_guard[of i l] by (simp add: N_h_val)

lemma left_terms_silent:
  assumes l: "0 \<le> l" and e: "\<bar>e\<bar> \<le> 1" and z: "\<forall>x \<in> set xs. x = 0"
    and n: "wing_last l \<le> n" "n < int (length xs)"
  shows "\<forall>t \<in> set (left_terms xs h_tab hb_tab (Fin e) l n). t = Inr (Fin 0)"
proof -
  have "wing_term xs h_tab hb_tab (Fin e) (n - i) (l + i * L) = Inr (Fin 0)"
    if "0 \<le> i" "i \<le> wing_last l" for i
  proof (rule wing_term_silent[OF _ _ e _ _ z])
    show "0 \<le> l + i * L" using l that(1) L_pos by simp
    show "l + i * L \<le> 2560" using wing_last_bound[OF l that] .
    show "0 \<le> n - i" "n - i < int (length xs)" using that n by simp_all
  qed
  then show ?thesis by (auto simp: left_terms_def)
qed

lemma right_terms_silent:
  assumes l: "0 \<le> l" and e: "\<bar>e\<bar> \<le> 1" and z: "\<forall>x \<in> set xs. x = 0"
    and n: "0 \<le> n + 1" "n + 1 + wing_last l < int (length xs)"
  shows "\<forall>t \<in> set (right_terms xs h_tab hb_tab (Fin e) l n). t = Inr (Fin 0)"
proof -
  have "wing_term xs h_tab hb_tab (Fin e) (n + 1 + i) (l + i * L) = Inr (Fin 0)"
    if "0 \<le> i" "i \<le> wing_last l" for i
  proof (rule wing_term_silent[OF _ _ e _ _ z])
    show "0 \<le> l + i * L" using l that(1) L_pos by simp
    show "l + i * L \<le> 2560" using wing_last_bound[OF l that] .
    show "0 \<le> n + 1 + i" "n + 1 + i < int (length xs)" using that n by simp_all
  qed
  then show ?thesis by (auto simp: right_terms_def)
qed

lemma d_to_sint_floor:
  assumes "0 \<le> r" "r < 2 ^ 31"
  shows "d_to_sint 32 (Fin r) = Inr \<lfloor>r\<rfloor>"
proof -
  have "\<lfloor>r\<rfloor> < 2 ^ 31" using assms(2) by (simp add: floor_less_iff)
  moreover have "0 \<le> \<lfloor>r\<rfloor>" using assms(1) by simp
  ultimately show ?thesis using assms(1) by (simp add: trunc_def)
qed

lemma sample_terms_eval:
  assumes Fs: "1 \<le> c_Fs c" and tr: "0 \<le> tr" "tr * real_of_int (c_Fs c) < 2 ^ 31"
    and n: "n = \<lfloor>tr * real_of_int (c_Fs c)\<rfloor>" and e: "e = frac (tr * real_of_int (c_Fs c))"
  shows "sample_terms c h hb (Fin tr) =
    Inr (left_terms (c_x c) h hb (Fin e) \<lfloor>e * 512\<rfloor> (n + c_extra c) @
         right_terms (c_x c) h hb (Fin (1 - e)) \<lfloor>(1 - e) * 512\<rfloor> (n + c_extra c))"
proof -
  define F where "F = real_of_int (c_Fs c)"
  define q where "q = tr * F"
  have F1: "1 \<le> F" using Fs by (simp add: F_def)
  have q0: "0 \<le> q" using tr(1) F1 by (simp add: q_def)
  have q31: "q < 2 ^ 31" using tr(2) by (simp add: q_def F_def)
  have nq: "real_of_int n = q - e" unfolding n e q_def F_def frac_def by simp
  have e01: "0 \<le> e" "e < 1" unfolding e by (simp_all add: frac_lt_1)
  have n0: "0 \<le> real_of_int n" unfolding n using tr(1) Fs by simp
  have nle: "real_of_int n \<le> q" using nq e01 by simp
  have trq: "tr \<le> q" unfolding q_def using tr(1) F1 by (simp add: mult_le_cancel_left1)
  have m1: "d_mul (Fin tr) (d_of_int (c_Fs c)) = Fin q"
    using q0 q31 by (simp add: d_of_int_def rnd_small q_def F_def)
  have c1: "d_to_sint 32 (Fin q) = Inr n"
    using d_to_sint_floor[OF q0 q31] by (simp add: n q_def F_def)
  have dn: "real_of_int n / F \<le> real_of_int n" "0 \<le> real_of_int n / F"
    using n0 F1 by (simp_all add: divide_le_eq mult_le_cancel_left1)
  have xt: "d_div (d_of_int n) (d_of_int (c_Fs c)) = Fin (real_of_int n / F)"
  proof -
    have "rnd (real_of_int n / F) = Fin (real_of_int n / F)"
      using dn nle q31 by (intro rnd_small) simp
    then show ?thesis using F1 by (simp add: d_of_int_def F_def)
  qed
  have dn1: "(real_of_int n + 1) / F \<le> real_of_int n + 1" "0 \<le> (real_of_int n + 1) / F"
    using n0 F1 by (simp_all add: divide_le_eq mult_le_cancel_left1)
  have xtn: "d_div (d_of_int (n + 1)) (d_of_int (c_Fs c)) = Fin ((real_of_int n + 1) / F)"
  proof -
    have "rnd ((real_of_int n + 1) / F) = Fin ((real_of_int n + 1) / F)"
      using dn1 nle q31 by (intro rnd_small) simp
    then show ?thesis using F1 by (simp add: d_of_int_def F_def)
  qed
  have s1: "d_sub (Fin ((real_of_int n + 1) / F)) (Fin tr) = Fin ((real_of_int n + 1) / F - tr)"
  proof -
    have "\<bar>(real_of_int n + 1) / F - tr\<bar> \<le> 2 ^ 32"
      using dn1 nle q31 tr(1) trq by simp
    then have "rnd ((real_of_int n + 1) / F - tr) = Fin ((real_of_int n + 1) / F - tr)"
      by (intro rnd_small) simp
    then show ?thesis by (simp add: d_sub_def)
  qed
  have df: "(real_of_int n + 1) / F - real_of_int n / F = 1 / F"
    by (simp add: add_divide_distrib)
  have s2: "d_sub (Fin ((real_of_int n + 1) / F)) (Fin (real_of_int n / F)) = Fin (1 / F)"
  proof -
    have "\<bar>1 / F\<bar> \<le> 1" using F1 by simp
    then have "rnd (1 / F) = Fin (1 / F)" by (intro rnd_small) simp
    then show ?thesis by (simp add: d_sub_def df)
  qed
  have qq: "((real_of_int n + 1) / F - tr) / (1 / F) = 1 - e"
  proof -
    have "((real_of_int n + 1) / F - tr) / (1 / F) = ((real_of_int n + 1) / F - tr) * F"
      by simp
    also have "\<dots> = (real_of_int n + 1) - tr * F"
      using F1 by (simp add: left_diff_distrib)
    also have "\<dots> = 1 - e" using nq by (simp add: q_def)
    finally show ?thesis .
  qed
  have d1: "d_div (Fin ((real_of_int n + 1) / F - tr)) (Fin (1 / F)) = Fin (1 - e)"
  proof -
    have "rnd (1 - e) = Fin (1 - e)" using e01 by (intro rnd_unit) simp
    then show ?thesis using F1 by (simp only: d_div.simps qq) simp
  qed
  have eta: "d_sub (Fin 1) (Fin (1 - e)) = Fin e"
    using e01 by (simp add: d_sub_def rnd_unit)
  have eta': "d_sub (Fin 1) (Fin e) = Fin (1 - e)"
    using e01 by (simp add: d_sub_def rnd_unit)
  have l: "d_to_sint 32 (d_mul (Fin e) (d_of_int L)) = Inr \<lfloor>e * 512\<rfloor>"
  proof -
    have "d_mul (Fin e) (d_of_int L) = Fin (e * 512)"
      using e01 by (simp add: d_of_int_def L_val rnd_small)
    moreover have "d_to_sint 32 (Fin (e * 512)) = Inr \<lfloor>e * 512\<rfloor>"
      using e01 by (intro d_to_sint_floor) simp_all
    ultimately show ?thesis by simp
  qed
  have l': "d_to_sint 32 (d_mul (Fin (1 - e)) (d_of_int L)) = Inr \<lfloor>(1 - e) * 512\<rfloor>"
  proof -
    have "d_mul (Fin (1 - e)) (d_of_int L) = Fin ((1 - e) * 512)"
      using e01 by (simp add: d_of_int_def L_val rnd_small)
    moreover have "d_to_sint 32 (Fin ((1 - e) * 512)) = Inr \<lfloor>(1 - e) * 512\<rfloor>"
      using e01 by (intro d_to_sint_floor) simp_all
    ultimately show ?thesis by simp
  qed
  have n1: "d_of_int (n + 1) = Fin (real_of_int n + 1)" by (simp add: d_of_int_def)
  show ?thesis
    unfolding sample_terms_def Let_def
    by (simp only: m1 c1 sum.case xt xtn s1 s2 d1 eta eta' l l')
qed

lemma sample_silent:
  assumes Fs: "1 \<le> c_Fs c" and tr: "0 \<le> tr" "tr * real_of_int (c_Fs c) < 2 ^ 31"
    and n: "n = \<lfloor>tr * real_of_int (c_Fs c)\<rfloor>" and e: "e = frac (tr * real_of_int (c_Fs c))"
    and z: "\<forall>x \<in> set (c_x c). x = 0"
    and lo: "wing_last \<lfloor>e * 512\<rfloor> \<le> n + c_extra c" "0 \<le> n + c_extra c + 1"
    and hi: "n + c_extra c < int (length (c_x c))"
      "n + c_extra c + 1 + wing_last \<lfloor>(1 - e) * 512\<rfloor> < int (length (c_x c))"
  shows "sample c h_tab hb_tab (Fin tr) = Inr 0"
proof -
  have e01: "0 \<le> e" "e < 1" unfolding e by (simp_all add: frac_lt_1)
  have l0: "0 \<le> \<lfloor>e * 512\<rfloor>" "0 \<le> \<lfloor>(1 - e) * 512\<rfloor>" using e01 by simp_all
  have a: "\<bar>e\<bar> \<le> 1" "\<bar>1 - e\<bar> \<le> 1" using e01 by simp_all
  have "\<forall>t \<in> set (left_terms (c_x c) h_tab hb_tab (Fin e) \<lfloor>e * 512\<rfloor> (n + c_extra c) @
         right_terms (c_x c) h_tab hb_tab (Fin (1 - e)) \<lfloor>(1 - e) * 512\<rfloor> (n + c_extra c)).
       t = Inr (Fin 0)"
    using left_terms_silent[OF l0(1) a(1) z lo(1) hi(1)]
      right_terms_silent[OF l0(2) a(2) z lo(2) hi(2)]
    by auto
  then show ?thesis
    using sample_acc16[OF sample_terms_eval[OF Fs tr n e]] acc16_silent by simp
qed

lemma wing_last_vals: "wing_last 0 = 5" "wing_last 512 = 4"
  by (simp_all add: wing_last_def N_h_val L_val)

lemma read_tiny:
  "read_input (one_file (mono_file 1 [0])) ''in'' 1 =
     Inr \<lparr>c_sfinfo = \<lparr>frames = 1, samplerate = 1, channels = 1, format = 0\<rparr>,
          c_Fs = 1, c_Fsp = 1, c_extra = 5, c_x_len = 11, c_x = replicate 11 0\<rparr>"
  by (simp add: read_input_def one_file_def mono_file_def Let_def d_of_int_def fits_int_def
        INT_MAX_def N_z_def c_calloc_def sf_readf_short_def c_nth_def rnd_small
        upto_rec1 numeral_eq_Suc)

lemma resamp_loop_step:
  "j < y_len \<Longrightarrow> sample c h hb t = Inr v \<Longrightarrow>
   resamp_loop c h hb y_len j t y =
     resamp_loop c h hb y_len (j + 1) (d_add t (d_div (Fin 1) (d_of_int (c_Fsp c)))) (y[nat j := v])"
  by (subst resamp_loop.simps) simp

lemma resamp_loop_fault:
  "j < y_len \<Longrightarrow> sample c h hb t = Inl e \<Longrightarrow> resamp_loop c h hb y_len j t y = Inl e"
  by (subst resamp_loop.simps) simp

lemma resamp_loop_done: "\<not> j < y_len \<Longrightarrow> resamp_loop c h hb y_len j t y = Inr y"
  by (subst resamp_loop.simps) simp

lemma sample_tiny: "sample tiny_padded h_tab hb_tab (Fin 0) = Inr 0"
  by (rule sample_silent[where n = 0 and e = 0])
     (simp_all add: tiny_padded_def wing_last_vals)

lemma resample_tiny:
  "resample (one_file (mono_file 1 [0])) tiny_padded h_tab hb_tab = Inr [0]"
proof -
  have yl: "y_length (c_sfinfo tiny_padded) (c_Fsp tiny_padded) = Inr 1"
    by (simp add: y_length_def tiny_padded_def fits_int64_def c_div_def d_of_int_def trunc_def)
  have ok: "c_calloc (calloc_ok (one_file (mono_file 1 [0]))) 1 2"
    by (simp add: c_calloc_def one_file_def)
  have "resamp_loop tiny_padded h_tab hb_tab 1 0 (Fin 0) (replicate (nat 1) 0) = Inr [0]"
    by (simp add: resamp_loop_step[OF _ sample_tiny] resamp_loop_done)
  then show ?thesis
    unfolding resample_def by (simp only: yl ok sum.case not_True_eq_False if_False)
qed

lemma run_tiny:
  "bi_resamp (one_file (mono_file 1 [0])) ''in'' ''out'' 1 =
    (Done, \<lparr>x_buf = Some (replicate 11 0), tables = Some (h_tab, hb_tab), y_buf = Some [0],
      out_file = Some \<lparr>out_path = ''out'',
        out_info = \<lparr>frames = 1, samplerate = 1, channels = 1, format = 0\<rparr>,
        out_pcm = []\<rparr>\<rparr>)"
proof -
  have r: "read_input (one_file (mono_file 1 [0])) ''in'' 1 = Inr tiny_padded"
    unfolding tiny_padded_def by (rule read_tiny)
  have t: "filter_table (calloc_ok (one_file (mono_file 1 [0]))) (kaiser_dB (Fin 80)) L N_h
      = Inr (h_tab, hb_tab)"
    by (rule program_tables) (simp add: one_file_def)
  have w: "write_output (one_file (mono_file 1 [0])) ''out'' tiny_padded [0] =
      Inr \<lparr>out_path = ''out'',
        out_info = \<lparr>frames = 1, samplerate = 1, channels = 1, format = 0\<rparr>,
        out_pcm = []\<rparr>"
    by (simp add: write_output_def sf_open_write_def one_file_def tiny_padded_def)
  show ?thesis
    unfolding bi_resamp_def
    by (simp only: r t resample_tiny w sum.case prod.case) (simp add: tiny_padded_def)
qed

section \<open>A read past the padding\<close>

lemma read_up:
  "read_input (one_file (mono_file 1 [0])) ''in'' 1024 = Inr up_padded"
  unfolding up_padded_def
  by (simp add: read_input_def one_file_def mono_file_def Let_def d_of_int_def fits_int_def
        INT_MAX_def N_z_def c_calloc_def sf_readf_short_def c_nth_def rnd_small
        upto_rec1 numeral_eq_Suc)

lemma wing_last_le_5: "0 \<le> l \<Longrightarrow> wing_last l \<le> 5"
  unfolding wing_last_def N_h_val L_val by simp

lemma wing_last_le_4: "1 \<le> l \<Longrightarrow> wing_last l \<le> 4"
  unfolding wing_last_def N_h_val L_val by simp

lemma frac_small: "0 \<le> (r::real) \<Longrightarrow> r < 1 \<Longrightarrow> frac r = r \<and> \<lfloor>r\<rfloor> = 0"
  by (simp add: frac_eq floor_eq_iff)

lemma sample_up_early:
  assumes "j \<le> 1022"
  shows "sample up_padded h_tab hb_tab (Fin (real j / 1024)) = Inr 0"
proof (rule sample_silent[where n = 0 and e = "real j / 1024"])
  have r: "0 \<le> real j / 1024" "real j / 1024 < 1" using assms by simp_all
  show "1 \<le> c_Fs up_padded" by (simp add: up_padded_def)
  show "0 \<le> real j / 1024" by simp
  show "real j / 1024 * real_of_int (c_Fs up_padded) < 2 ^ 31"
    using r by (simp add: up_padded_def)
  show "0 = \<lfloor>real j / 1024 * real_of_int (c_Fs up_padded)\<rfloor>"
    using frac_small[OF r] by (simp add: up_padded_def)
  show "real j / 1024 = frac (real j / 1024 * real_of_int (c_Fs up_padded))"
    using frac_small[OF r] by (simp add: up_padded_def)
  show "\<forall>x\<in>set (c_x up_padded). x = 0" by (simp add: up_padded_def)
  have "0 \<le> \<lfloor>real j / 1024 * 512\<rfloor>" by simp
  then show "wing_last \<lfloor>real j / 1024 * 512\<rfloor> \<le> 0 + c_extra up_padded"
    using wing_last_le_5 by (simp add: up_padded_def)
  show "0 \<le> 0 + c_extra up_padded + 1" by (simp add: up_padded_def)
  show "0 + c_extra up_padded < int (length (c_x up_padded))" by (simp add: up_padded_def)
  have "1 \<le> (1 - real j / 1024) * 512" using assms by simp
  then have "1 \<le> \<lfloor>(1 - real j / 1024) * 512\<rfloor>" by (simp add: le_floor_iff)
  then have "wing_last \<lfloor>(1 - real j / 1024) * 512\<rfloor> \<le> 4" by (rule wing_last_le_4)
  then show "0 + c_extra up_padded + 1 + wing_last \<lfloor>(1 - real j / 1024) * 512\<rfloor>
      < int (length (c_x up_padded))"
    by (simp add: up_padded_def)
qed

lemma acc16_snoc_fault:
  "acc16 v ts = Inr v' \<Longrightarrow> acc16 v (ts @ [Inl e]) = Inl e"
  by (simp add: acc16_append)

lemma sample_up_last:
  "sample up_padded h_tab hb_tab (Fin (1023 / 1024)) = Inl OutOfBounds"
proof -
  let ?xs = "replicate 11 (0 :: short)"
  have fr: "frac (1023 / 1024 :: real) = 1023 / 1024" "\<lfloor>1023 / 1024 :: real\<rfloor> = 0"
    using frac_small[of "1023 / 1024"] by simp_all
  have st: "sample_terms up_padded h_tab hb_tab (Fin (1023 / 1024)) =
    Inr (left_terms ?xs h_tab hb_tab (Fin (1023 / 1024)) 511 5 @
         right_terms ?xs h_tab hb_tab (Fin (1 / 1024)) 0 5)"
    using sample_terms_eval[where c = up_padded and tr = "1023 / 1024" and n = 0
        and e = "1023 / 1024" and h = h_tab and hb = hb_tab]
    by (simp add: up_padded_def fr)
  have z: "\<forall>x \<in> set ?xs. x = 0" by simp
  have "wing_last 511 \<le> 5" by (rule wing_last_le_5) simp
  then have left: "acc16 0 (left_terms ?xs h_tab hb_tab (Fin (1023 / 1024)) 511 5) = Inr 0"
    by (intro acc16_silent left_terms_silent z) simp_all
  have u: "[0..5] = [0..4] @ [5::int]"
    by (simp add: upto_rec1)
  have first: "\<forall>t \<in> set (map (\<lambda>i. wing_term ?xs h_tab hb_tab (Fin (1 / 1024)) (5 + 1 + i) (0 + i * L))
      [0..4]). t = Inr (Fin 0)"
  proof -
    have "wing_term ?xs h_tab hb_tab (Fin (1 / 1024)) (5 + 1 + i) (0 + i * L) = Inr (Fin 0)"
      if "0 \<le> i" "i \<le> 4" for i
      using that by (intro wing_term_silent z) (simp_all add: L_val)
    then show ?thesis by auto
  qed
  have last: "wing_term ?xs h_tab hb_tab (Fin (1 / 1024)) (5 + 1 + 5) (0 + 5 * L) = Inl OutOfBounds"
    by (simp add: wing_term_def c_nth_def)
  have right: "acc16 0 (right_terms ?xs h_tab hb_tab (Fin (1 / 1024)) 0 5) = Inl OutOfBounds"
    unfolding right_terms_def wing_last_vals u map_append list.map last
    by (rule acc16_snoc_fault[OF acc16_silent[OF first]])
  show ?thesis
    unfolding sample_acc16[OF st] acc16_append left sum.case by (rule right)
qed

lemma up_time:
  assumes "j \<le> 1024"
  shows "d_add (Fin (real j / 1024)) (d_div (Fin 1) (d_of_int (c_Fsp up_padded)))
     = Fin (real (Suc j) / 1024)"
proof -
  have d: "d_div (Fin 1) (d_of_int (c_Fsp up_padded)) = Fin (1 / 1024)"
    by (simp add: up_padded_def d_of_int_def rnd_unit)
  have e: "real j / 1024 + 1 / 1024 = real (Suc j) / 1024"
    by (simp add: add_divide_distrib)
  have "\<bar>real (Suc j) / 1024\<bar> \<le> 2" using assms by simp
  then have "rnd (real (Suc j) / 1024) = Fin (real (Suc j) / 1024)" by (rule rnd_unit)
  then show ?thesis by (simp only: d d_add.simps e)
qed

lemma resamp_up_from:
  "k \<le> 1023 \<Longrightarrow>
   resamp_loop up_padded h_tab hb_tab 1024 (int (1023 - k)) (Fin (real (1023 - k) / 1024)) y
     = Inl OutOfBounds"
proof (induction k arbitrary: y)
  case 0
  show ?case
    using resamp_loop_fault[of 1023 1024 up_padded h_tab hb_tab "Fin (1023 / 1024)" OutOfBounds y]
      sample_up_last by simp
next
  case (Suc k)
  let ?j = "1023 - Suc k"
  have j: "?j \<le> 1022" "Suc ?j = 1023 - k" "int ?j + 1 = int (1023 - k)" "int ?j < 1024"
    using Suc.prems by simp_all
  have t: "d_add (Fin (real ?j / 1024)) (d_div (Fin 1) (d_of_int (c_Fsp up_padded)))
     = Fin (real (1023 - k) / 1024)"
    using up_time[of ?j] j by simp
  have "resamp_loop up_padded h_tab hb_tab 1024 (int ?j) (Fin (real ?j / 1024)) y =
      resamp_loop up_padded h_tab hb_tab 1024 (int ?j + 1)
        (d_add (Fin (real ?j / 1024)) (d_div (Fin 1) (d_of_int (c_Fsp up_padded))))
        (y[nat (int ?j) := 0])"
    by (rule resamp_loop_step[OF j(4) sample_up_early[OF j(1)]])
  also have "\<dots> = resamp_loop up_padded h_tab hb_tab 1024 (int (1023 - k))
        (Fin (real (1023 - k) / 1024)) (y[nat (int ?j) := 0])"
    by (simp only: t j(3))
  also have "\<dots> = Inl OutOfBounds"
    using Suc.prems by (intro Suc.IH) simp
  finally show ?case .
qed

lemma resample_up:
  "resample (one_file (mono_file 1 [0])) up_padded h_tab hb_tab = Inl OutOfBounds"
proof -
  have yl: "y_length (c_sfinfo up_padded) (c_Fsp up_padded) = Inr 1024"
    by (simp add: y_length_def up_padded_def fits_int64_def c_div_def d_of_int_def trunc_def)
  have ok: "c_calloc (calloc_ok (one_file (mono_file 1 [0]))) 1024 2"
    by (simp add: c_calloc_def one_file_def)
  have "resamp_loop up_padded h_tab hb_tab 1024 0 (Fin 0) (replicate (nat 1024) 0)
      = Inl OutOfBounds"
    using resamp_up_from[of 1023] by simp
  then show ?thesis
    unfolding resample_def by (simp only: yl ok sum.case not_True_eq_False if_False)
qed

section \<open>Two entries of the table\<close>

lemma sin_small: "0 < sin (pi / 512)" "sin (pi / 512) \<le> pi / 512"
proof -
  have "0 < pi / 512" "pi / 512 < pi" using pi_gt_zero by simp_all
  then show "0 < sin (pi / 512)" by (rule sin_gt_zero)
  show "sin (pi / 512) \<le> pi / 512" by (rule sin_x_le_x) simp
qed

lemma sinc_513: "sinc_val 512 513 = - (sin (pi / 512) / (513 / 512 * pi))"
proof -
  have "(513 / 512 * pi :: real) = pi / 512 + pi" by simp
  then have "sin (513 / 512 * pi) = - sin (pi / 512)"
    by (simp only: sin_periodic_pi)
  then show ?thesis by (simp add: sinc_val_def)
qed

lemma sinc_1025: "sinc_val 512 1025 = sin (pi / 512) / (1025 / 512 * pi)"
proof -
  have "(1025 / 512 * pi :: real) = pi / 512 + 2 * pi" by simp
  then have "sin (1025 / 512 * pi) = sin (pi / 512)"
    by (simp only: sin_periodic)
  then show ?thesis by (simp add: sinc_val_def)
qed

lemma sinc_513_range: "- (1 / 513) \<le> sinc_val 512 513" "sinc_val 512 513 < 0"
proof -
  have "sin (pi / 512) / (513 / 512 * pi) \<le> (pi / 512) / (513 / 512 * pi)"
    using sin_small(2) pi_gt_zero by (intro divide_right_mono) simp_all
  also have "\<dots> = 1 / 513" using pi_gt_zero by simp
  finally show "- (1 / 513) \<le> sinc_val 512 513" unfolding sinc_513 by simp
  have "0 < sin (pi / 512) / (513 / 512 * pi)"
    using sin_small(1) pi_gt_zero by (intro divide_pos_pos) simp_all
  then show "sinc_val 512 513 < 0" unfolding sinc_513 by simp
qed

lemma sinc_1025_range: "0 < sinc_val 512 1025" "sinc_val 512 1025 \<le> 1 / 1025"
proof -
  have "sin (pi / 512) / (1025 / 512 * pi) \<le> (pi / 512) / (1025 / 512 * pi)"
    using sin_small(2) pi_gt_zero by (intro divide_right_mono) simp_all
  also have "\<dots> = 1 / 1025" using pi_gt_zero by simp
  finally show "sinc_val 512 1025 \<le> 1 / 1025" unfolding sinc_1025 by simp
  show "0 < sinc_val 512 1025" unfolding sinc_1025
    using sin_small(1) pi_gt_zero by (intro divide_pos_pos) simp_all
qed

lemma sinc_ratio: "sinc_val 512 1025 = - (513 / 1025) * sinc_val 512 513"
  unfolding sinc_513 sinc_1025 using pi_gt_zero by (simp add: field_simps)

lemma DBL_MAX_10240: "2 * 5120 \<le> DBL_MAX"
  by (simp add: DBL_MAX_def)

lemma K_range: "0 < K513" "K513 \<le> 1" "0 < K1025" "K1025 \<le> 1"
  unfolding K513_def K1025_def
  using kaiser_inside(2,3)[OF alpha80_bound, of 2047 5120]
    kaiser_inside(2,3)[OF alpha80_bound, of 1535 5120] DBL_MAX_10240
  by simp_all

lemma K_mono: "K1025 \<le> K513"
proof -
  have a0: "0 \<le> alpha80" by (simp add: alpha80_def)
  have "1 - (2 * 1535 / 5120 - 1)\<^sup>2 \<le> 1 - (2 * 2047 / 5120 - 1 :: real)\<^sup>2"
    by (simp add: power2_eq_square)
  then have "kaiser_arg 5120 1535 \<le> kaiser_arg 5120 2047"
    unfolding kaiser_arg_def by (rule real_sqrt_le_mono)
  moreover have "0 \<le> kaiser_arg 5120 1535" "kaiser_arg 5120 2047 \<le> 1"
    using kaiser_arg_range[of 1535 5120] kaiser_arg_range[of 2047 5120] by simp_all
  ultimately have le: "\<bar>alpha80 * kaiser_arg 5120 1535\<bar> \<le> \<bar>alpha80 * kaiser_arg 5120 2047\<bar>"
    using a0 by (simp add: abs_mult mult_left_mono)
  have "\<bar>alpha80 * kaiser_arg 5120 2047\<bar> \<le> \<bar>alpha80\<bar> * 1"
    unfolding abs_mult using \<open>kaiser_arg 5120 2047 \<le> 1\<close> kaiser_arg_range(3)[of 2047 5120]
    by (intro mult_left_mono) simp_all
  then have b: "\<bar>alpha80 * kaiser_arg 5120 2047\<bar> \<le> 50" using alpha80_bound by simp
  have "bessel_val (alpha80 * kaiser_arg 5120 1535) \<le> bessel_val (alpha80 * kaiser_arg 5120 2047)"
    using le b by (rule bessel_val_mono)
  then show ?thesis
    unfolding K513_def K1025_def kaiser_val_def
    using bessel_val_ge_1[of alpha80] by (intro divide_right_mono) simp_all
qed

lemma h_513: "h_val alpha80 L N_h 513 = K513 * sinc_val 512 513"
  by (simp add: h_val_def L_val N_h_val K513_def)

lemma h_1025: "h_val alpha80 L N_h 1025 = K1025 * sinc_val 512 1025"
  by (simp add: h_val_def L_val N_h_val K1025_def)

lemma h_513_range: "- (1 / 513) \<le> h_val alpha80 L N_h 513" "h_val alpha80 L N_h 513 < 0"
proof -
  have "K513 * (- sinc_val 512 513) \<le> 1 * (1 / 513)"
    using K_range(1,2) sinc_513_range by (intro mult_mono) simp_all
  then show "- (1 / 513) \<le> h_val alpha80 L N_h 513" unfolding h_513 by simp
  show "h_val alpha80 L N_h 513 < 0" unfolding h_513
    using K_range(1) sinc_513_range(2) by (rule mult_pos_neg)
qed

lemma h_1025_range: "0 < h_val alpha80 L N_h 1025" "h_val alpha80 L N_h 1025 \<le> 1 / 1025"
proof -
  have "K1025 * sinc_val 512 1025 \<le> 1 * (1 / 1025)"
    using K_range(3,4) sinc_1025_range by (intro mult_mono) simp_all
  then show "h_val alpha80 L N_h 1025 \<le> 1 / 1025" unfolding h_1025 by simp
  show "0 < h_val alpha80 L N_h 1025" unfolding h_1025
    using K_range(3) sinc_1025_range(1) by (rule mult_pos_pos)
qed

lemma wings_negative: "2 * h_val alpha80 L N_h 513 + h_val alpha80 L N_h 1025 < 0"
proof -
  let ?s = "- sinc_val 512 513"
  have s: "0 < ?s" using sinc_513_range(2) by simp
  have "K1025 * (513 / 1025) \<le> K513 * (513 / 1025)"
    using K_mono by (intro mult_right_mono) simp_all
  also have "\<dots> < K513 * 2" using K_range(1) by simp
  finally have "K1025 * (513 / 1025) - 2 * K513 < 0" by simp
  then have "(K1025 * (513 / 1025) - 2 * K513) * ?s < 0"
    using s by (rule mult_neg_pos)
  moreover have "2 * h_val alpha80 L N_h 513 + h_val alpha80 L N_h 1025
      = (K1025 * (513 / 1025) - 2 * K513) * ?s"
    unfolding h_513 h_1025 sinc_ratio by (simp add: algebra_simps)
  ultimately show ?thesis by simp
qed

section \<open>A run on three samples\<close>

lemma wing_term_eval:
  assumes m: "0 \<le> m" "m \<le> 2560" and e: "\<bar>e\<bar> \<le> 1"
    and k: "0 \<le> k" "k < int (length xs)"
  shows "wing_term xs h_tab hb_tab (Fin e) k m =
    Inr (Fin (real_of_int (sint (xs ! nat k)) *
              (h_val alpha80 L N_h m + e * hb_val alpha80 L N_h m)))"
proof -
  let ?c = "h_val alpha80 L N_h m + e * hb_val alpha80 L N_h m"
  let ?s = "real_of_int (sint (xs ! nat k))"
  from coeff_eval[OF m e] have ab: "c_nth h_tab m = Inr (Fin (h_val alpha80 L N_h m))"
    "c_nth hb_tab m = Inr (Fin (hb_val alpha80 L N_h m))"
    "d_add (Fin (h_val alpha80 L N_h m)) (d_mul (Fin e) (Fin (hb_val alpha80 L N_h m))) = Fin ?c"
    "\<bar>?c\<bar> \<le> 3"
    by auto
  have x: "c_nth xs k = Inr (xs ! nat k)" using k by (simp add: c_nth_def)
  have "\<bar>sint (xs ! nat k)\<bar> \<le> 2 ^ 15"
    using short_range[of "xs ! nat k"] by simp
  then have "\<bar>?s\<bar> \<le> 2 ^ 15"
    by (metis of_int_abs of_int_le_iff of_int_numeral of_int_power)
  then have "\<bar>?s * ?c\<bar> \<le> 2 ^ 15 * 3"
    unfolding abs_mult using ab(4) by (intro mult_mono) simp_all
  then have "rnd (?s * ?c) = Fin (?s * ?c)" by (intro rnd_small) simp
  then have p: "d_mul (Fin ?s) (Fin ?c) = Fin (?s * ?c)" by (simp only: d_mul.simps)
  show ?thesis
    unfolding wing_term_def
    by (simp only: x ab(1,2,3) sum.case short_to_double_def p)
qed

lemma left_terms_eval:
  assumes l: "0 \<le> l" and e: "\<bar>e\<bar> \<le> 1" and n: "wing_last l \<le> n" "n < int (length xs)"
  shows "left_terms xs h_tab hb_tab (Fin e) l n =
    map (\<lambda>i. Inr (Fin (real_of_int (sint (xs ! nat (n - i))) *
           (h_val alpha80 L N_h (l + i * L) + e * hb_val alpha80 L N_h (l + i * L)))))
        [0..wing_last l]"
  unfolding left_terms_def
proof (rule map_cong[OF refl])
  fix i assume "i \<in> set [0..wing_last l]"
  then have i: "0 \<le> i" "i \<le> wing_last l" by auto
  show "wing_term xs h_tab hb_tab (Fin e) (n - i) (l + i * L) =
    Inr (Fin (real_of_int (sint (xs ! nat (n - i))) *
           (h_val alpha80 L N_h (l + i * L) + e * hb_val alpha80 L N_h (l + i * L))))"
  proof (rule wing_term_eval[OF _ _ e])
    show "0 \<le> l + i * L" using l i(1) L_pos by simp
    show "l + i * L \<le> 2560" using wing_last_bound[OF l i] .
    show "0 \<le> n - i" "n - i < int (length xs)" using i n by simp_all
  qed
qed

lemma right_terms_eval:
  assumes l: "0 \<le> l" and e: "\<bar>e\<bar> \<le> 1"
    and n: "0 \<le> n + 1" "n + 1 + wing_last l < int (length xs)"
  shows "right_terms xs h_tab hb_tab (Fin e) l n =
    map (\<lambda>i. Inr (Fin (real_of_int (sint (xs ! nat (n + 1 + i))) *
           (h_val alpha80 L N_h (l + i * L) + e * hb_val alpha80 L N_h (l + i * L)))))
        [0..wing_last l]"
  unfolding right_terms_def
proof (rule map_cong[OF refl])
  fix i assume "i \<in> set [0..wing_last l]"
  then have i: "0 \<le> i" "i \<le> wing_last l" by auto
  show "wing_term xs h_tab hb_tab (Fin e) (n + 1 + i) (l + i * L) =
    Inr (Fin (real_of_int (sint (xs ! nat (n + 1 + i))) *
           (h_val alpha80 L N_h (l + i * L) + e * hb_val alpha80 L N_h (l + i * L))))"
  proof (rule wing_term_eval[OF _ _ e])
    show "0 \<le> l + i * L" using l i(1) L_pos by simp
    show "l + i * L \<le> 2560" using wing_last_bound[OF l i] .
    show "0 \<le> n + 1 + i" "n + 1 + i < int (length xs)" using i n by simp_all
  qed
qed

lemma read_three:
  "read_input (one_file (mono_file 1 [- 1, 2, 1])) ''in'' 1 = Inr three_padded"
  unfolding three_padded_def
  by (simp add: read_input_def one_file_def mono_file_def Let_def d_of_int_def fits_int_def
        INT_MAX_def N_z_def c_calloc_def sf_readf_short_def c_nth_def rnd_small
        upto_rec1 numeral_eq_Suc)

lemma hb_512: "hb_val a res N_h 512 = h_val a res N_h 513 - h_val a res N_h 512"
  by (simp add: hb_val_def N_h_val)

lemma hb_1024: "hb_val a res N_h 1024 = h_val a res N_h 1025 - h_val a res N_h 1024"
  by (simp add: hb_val_def N_h_val)

lemma h_0: "h_val a res len 0 = 1"
  by (simp add: h_val_def)

lemma terms_three:
  "sample_terms three_padded h_tab hb_tab (Fin 0) =
    Inr [Inr (Fin (- 1)), Inr (Fin 0), Inr (Fin 0), Inr (Fin 0), Inr (Fin 0), Inr (Fin 0),
         Inr (Fin (2 * h_val alpha80 L N_h 513)), Inr (Fin (h_val alpha80 L N_h 1025)),
         Inr (Fin 0), Inr (Fin 0), Inr (Fin 0)]"
proof -
  let ?xs = "[0, 0, 0, 0, 0, - 1, 2, 1, 0, 0, 0, 0, 0] :: short list"
  have st: "sample_terms three_padded h_tab hb_tab (Fin 0) =
    Inr (left_terms ?xs h_tab hb_tab (Fin 0) 0 5 @ right_terms ?xs h_tab hb_tab (Fin 1) 512 5)"
    using sample_terms_eval[where c = three_padded and tr = 0 and n = 0 and e = 0
        and h = h_tab and hb = hb_tab]
    by (simp add: three_padded_def)
  have u5: "[0..5] = [0, 1, 2, 3, 4, 5::int]" and u4: "[0..4] = [0, 1, 2, 3, 4::int]"
    by (simp_all add: upto_rec1)
  have left: "left_terms ?xs h_tab hb_tab (Fin 0) 0 5 =
      [Inr (Fin (- 1)), Inr (Fin 0), Inr (Fin 0), Inr (Fin 0), Inr (Fin 0), Inr (Fin 0)]"
    by (subst left_terms_eval) (simp_all add: wing_last_vals u5 h_0)
  have right: "right_terms ?xs h_tab hb_tab (Fin 1) 512 5 =
      [Inr (Fin (2 * h_val alpha80 L N_h 513)), Inr (Fin (h_val alpha80 L N_h 1025)),
       Inr (Fin 0), Inr (Fin 0), Inr (Fin 0)]"
    by (subst right_terms_eval) (simp_all add: wing_last_vals u4 L_val hb_512 hb_1024)
  show ?thesis unfolding st left right by simp
qed

lemma add16_real:
  assumes "\<bar>r\<bar> \<le> 2 ^ 16"
    and "- (2 ^ 15) \<le> trunc (real_of_int (sint v) + r)"
    and "trunc (real_of_int (sint v) + r) < 2 ^ 15"
  shows "add16 v (Fin r) = Inr (word_of_int (trunc (real_of_int (sint v) + r)))"
proof -
  have "\<bar>real_of_int (sint v)\<bar> \<le> 2 ^ 15"
  proof -
    have "\<bar>sint v\<bar> \<le> 2 ^ 15" using short_range[of v] by simp
    then show ?thesis by (metis of_int_abs of_int_le_iff of_int_numeral of_int_power)
  qed
  then have "\<bar>real_of_int (sint v) + r\<bar> \<le> 2 ^ 17" using assms(1) by simp
  then have "rnd (real_of_int (sint v) + r) = Fin (real_of_int (sint v) + r)"
    by (intro rnd_small) simp
  then have a: "d_add (short_to_double v) (Fin r) = Fin (real_of_int (sint v) + r)"
    by (simp only: short_to_double_def d_add.simps)
  have "d_to_sint 16 (Fin (real_of_int (sint v) + r)) = Inr (trunc (real_of_int (sint v) + r))"
    using assms(2,3) by simp
  then show ?thesis by (simp only: add16_def a d_to_short_def sum.case)
qed

lemma trunc_neg: "- 1 < r \<Longrightarrow> r < 0 \<Longrightarrow> trunc r = 0"
  by (simp add: trunc_def ceiling_eq_iff)

lemma trunc_below_minus_1: "- 2 < r \<Longrightarrow> r \<le> - 1 \<Longrightarrow> trunc r = - 1"
  by (simp add: trunc_def ceiling_eq_iff)

lemma sint_minus_1: "sint (- 1 :: short) = - 1"
  by simp

lemma acc_three:
  "acc16 0 [Inr (Fin (- 1)), Inr (Fin 0), Inr (Fin 0), Inr (Fin 0), Inr (Fin 0), Inr (Fin 0),
         Inr (Fin (2 * h_val alpha80 L N_h 513)), Inr (Fin (h_val alpha80 L N_h 1025)),
         Inr (Fin 0), Inr (Fin 0), Inr (Fin 0)] = Inr 0"
proof -
  let ?a = "h_val alpha80 L N_h 513" and ?b = "h_val alpha80 L N_h 1025"
  have s0: "add16 0 (Fin (- 1)) = Inr (- 1)"
    using add16_int[of "Fin (- 1)" "- 1" 0] by simp
  have m1: "real_of_int (sint (- 1 :: short)) = - 1" by simp
  have t1: "trunc (real_of_int (sint (- 1 :: short)) + 2 * ?a) = - 1"
    unfolding m1 using h_513_range by (intro trunc_below_minus_1) simp_all
  have s1: "add16 (- 1) (Fin (2 * ?a)) = Inr (- 1)"
    using add16_real[of "2 * ?a" "- 1"] h_513_range by (simp only: t1) simp
  have t2: "trunc (real_of_int (sint (- 1 :: short)) + ?b) = 0"
    unfolding m1 using h_1025_range by (intro trunc_neg) simp_all
  have s2: "add16 (- 1) (Fin ?b) = Inr 0"
    using add16_real[of ?b "- 1"] h_1025_range by (simp only: t2) simp
  show ?thesis by (simp add: s0 s1 s2 add16_0)
qed

lemma once_three:
  "sample_once three_padded h_tab hb_tab (Fin 0) = Inr (- 1)"
proof -
  let ?a = "h_val alpha80 L N_h 513" and ?b = "h_val alpha80 L N_h 1025"
  have r1: "rnd (2 * ?a - 1) = Fin (2 * ?a - 1)"
    using h_513_range by (intro rnd_unit) simp
  have r2: "rnd (2 * ?a - 1 + ?b) = Fin (2 * ?a - 1 + ?b)"
    using h_513_range h_1025_range by (intro rnd_unit) simp
  have f: "foldl d_add (Fin 0) [Fin (- 1), Fin 0, Fin 0, Fin 0, Fin 0, Fin 0,
         Fin (2 * ?a), Fin ?b, Fin 0, Fin 0, Fin 0] = Fin (2 * ?a - 1 + ?b)"
    by (simp add: rnd_unit r1 r2)
  have "2 * ?a - 1 + ?b \<le> - 1" using wings_negative by simp
  moreover have "- 2 < 2 * ?a - 1 + ?b" using h_513_range h_1025_range by simp
  ultimately have "trunc (2 * ?a - 1 + ?b) = - 1" by (intro trunc_below_minus_1)
  then have "d_to_short (Fin (2 * ?a - 1 + ?b)) = Inr (- 1)"
    by (simp add: d_to_short_def)
  then show ?thesis
    unfolding sample_once_def terms_three by (simp only: sum.case collect.simps f)
qed

lemma resamp_loop_nth:
  "resamp_loop c h hb y_len (int j) (time_at c j) y = Inr y' \<Longrightarrow> length y = nat y_len \<Longrightarrow>
   (\<forall>k. j \<le> k \<and> int k < y_len \<longrightarrow> sample c h hb (time_at c k) = Inr (y' ! k)) \<and>
   (\<forall>k < j. y' ! k = y ! k)"
proof (induction "nat y_len - j" arbitrary: j y)
  case 0
  then have n: "\<not> int j < y_len" by simp
  then have "y' = y" using "0.prems"(1) by (simp add: resamp_loop_done)
  moreover have "\<forall>k. j \<le> k \<and> int k < y_len \<longrightarrow> sample c h hb (time_at c k) = Inr (y' ! k)"
    using n by auto
  ultimately show ?case by simp
next
  case (Suc d)
  then have lt: "int j < y_len" by simp
  from Suc.prems(1) obtain v where v: "sample c h hb (time_at c j) = Inr v"
    by (subst (asm) resamp_loop.simps) (auto simp: lt split: sum.splits)
  have r: "resamp_loop c h hb y_len (int (Suc j)) (time_at c (Suc j)) (y[j := v]) = Inr y'"
    using Suc.prems(1) resamp_loop_step[OF lt v, of y] by (simp add: add.commute)
  have d: "d = nat y_len - Suc j" using Suc.hyps(2) by simp
  have len: "length (y[j := v]) = nat y_len" using Suc.prems(2) by simp
  note ih = Suc.hyps(1)[OF d r len]
  have jl: "j < length y" using lt Suc.prems(2) by simp
  have yj: "y' ! j = v" using ih jl by simp
  show ?case
  proof (intro conjI allI impI)
    fix k assume k: "j \<le> k \<and> int k < y_len"
    show "sample c h hb (time_at c k) = Inr (y' ! k)"
    proof (cases "k = j")
      case True
      then show ?thesis using v yj by simp
    next
      case False
      then have "Suc j \<le> k" using k by simp
      then show ?thesis using ih k by blast
    qed
  next
    fix k assume "k < j"
    then show "y' ! k = y ! k" using ih by simp
  qed
qed

lemma resample_nth:
  assumes "resample w c h hb = Inr y" "j < length y"
  shows "sample c h hb (time_at c j) = Inr (y ! j)"
proof -
  from assms(1) obtain y_len where ok: "c_calloc (calloc_ok w) y_len 2"
    and r: "resamp_loop c h hb y_len 0 (Fin 0) (replicate (nat y_len) 0) = Inr y"
    unfolding resample_def by (auto split: sum.splits if_splits)
  have l: "length y = nat y_len" using resamp_loop_length[OF r] by simp
  have "resamp_loop c h hb y_len (int 0) (time_at c 0) (replicate (nat y_len) 0) = Inr y"
    using r by simp
  from resamp_loop_nth[OF this] have "\<forall>k. 0 \<le> k \<and> int k < y_len \<longrightarrow>
      sample c h hb (time_at c k) = Inr (y ! k)" by simp
  moreover have "int j < y_len" using assms(2) l by simp
  ultimately show ?thesis by simp
qed

lemma h_512: "h_val a 512 N_h 512 = 0"
  by (simp add: h_val_def sinc_val_def)

lemma h_1024: "h_val a 512 N_h 1024 = 0"
  by (simp add: h_val_def sinc_val_def)

lemma trunc_below_2: "1 < r \<Longrightarrow> r < 2 \<Longrightarrow> trunc r = 1"
  by (simp add: trunc_def floor_eq_iff)

lemma time_three: "time_at three_padded 1 = Fin 1" "time_at three_padded 2 = Fin 2"
proof -
  show "time_at three_padded 1 = Fin 1"
    by (simp add: three_padded_def d_of_int_def rnd_unit)
  then show "time_at three_padded 2 = Fin 2"
    by (simp add: numeral_2_eq_2 three_padded_def d_of_int_def rnd_unit)
qed

lemma sample_three_0: "sample three_padded h_tab hb_tab (Fin 0) = Inr 0"
  using sample_acc16[OF terms_three] acc_three by simp

lemma sample_three_1: "sample three_padded h_tab hb_tab (Fin 1) = Inr 1"
proof -
  let ?xs = "[0, 0, 0, 0, 0, - 1, 2, 1, 0, 0, 0, 0, 0] :: short list"
  let ?a = "h_val alpha80 L N_h 513"
  have st: "sample_terms three_padded h_tab hb_tab (Fin 1) =
    Inr (left_terms ?xs h_tab hb_tab (Fin 0) 0 6 @ right_terms ?xs h_tab hb_tab (Fin 1) 512 6)"
    using sample_terms_eval[where c = three_padded and tr = 1 and n = 1 and e = 0
        and h = h_tab and hb = hb_tab]
    by (simp add: three_padded_def)
  have u5: "[0..5] = [0, 1, 2, 3, 4, 5::int]" and u4: "[0..4] = [0, 1, 2, 3, 4::int]"
    by (simp_all add: upto_rec1)
  have left: "left_terms ?xs h_tab hb_tab (Fin 0) 0 6 =
      [Inr (Fin 2), Inr (Fin 0), Inr (Fin 0), Inr (Fin 0), Inr (Fin 0), Inr (Fin 0)]"
    by (subst left_terms_eval) (simp_all add: wing_last_vals u5 h_0 L_val h_512)
  have right: "right_terms ?xs h_tab hb_tab (Fin 1) 512 6 =
      [Inr (Fin ?a), Inr (Fin 0), Inr (Fin 0), Inr (Fin 0), Inr (Fin 0)]"
    by (subst right_terms_eval) (simp_all add: wing_last_vals u4 L_val hb_512 h_512)
  have s0: "add16 0 (Fin 2) = Inr 2"
    using add16_int[of "Fin 2" 2 0] by simp
  have m2: "real_of_int (sint (2 :: short)) = 2" by simp
  have t1: "trunc (real_of_int (sint (2 :: short)) + ?a) = 1"
    unfolding m2 using h_513_range by (intro trunc_below_2) simp_all
  have s1: "add16 2 (Fin ?a) = Inr 1"
    using add16_real[of ?a 2] h_513_range by (simp only: t1) simp
  show ?thesis
    unfolding sample_acc16[OF st] left right by (simp add: s0 s1 add16_0)
qed

lemma sample_three_2: "sample three_padded h_tab hb_tab (Fin 2) = Inr 1"
proof -
  let ?xs = "[0, 0, 0, 0, 0, - 1, 2, 1, 0, 0, 0, 0, 0] :: short list"
  have st: "sample_terms three_padded h_tab hb_tab (Fin 2) =
    Inr (left_terms ?xs h_tab hb_tab (Fin 0) 0 7 @ right_terms ?xs h_tab hb_tab (Fin 1) 512 7)"
    using sample_terms_eval[where c = three_padded and tr = 2 and n = 2 and e = 0
        and h = h_tab and hb = hb_tab]
    by (simp add: three_padded_def)
  have u5: "[0..5] = [0, 1, 2, 3, 4, 5::int]" and u4: "[0..4] = [0, 1, 2, 3, 4::int]"
    by (simp_all add: upto_rec1)
  have left: "left_terms ?xs h_tab hb_tab (Fin 0) 0 7 =
      [Inr (Fin 1), Inr (Fin 0), Inr (Fin 0), Inr (Fin 0), Inr (Fin 0), Inr (Fin 0)]"
    by (subst left_terms_eval) (simp_all add: wing_last_vals u5 h_0 L_val h_512 h_1024)
  have right: "right_terms ?xs h_tab hb_tab (Fin 1) 512 7 =
      [Inr (Fin 0), Inr (Fin 0), Inr (Fin 0), Inr (Fin 0), Inr (Fin 0)]"
    by (subst right_terms_eval) (simp_all add: wing_last_vals u4 L_val)
  have s0: "add16 0 (Fin 1) = Inr 1"
    using add16_int[of "Fin 1" 1 0] by simp
  show ?thesis
    unfolding sample_acc16[OF st] left right by (simp add: s0 add16_0)
qed

lemma resample_three:
  "resample (one_file (mono_file 1 [- 1, 2, 1])) three_padded h_tab hb_tab = Inr [0, 1, 1]"
proof -
  have yl: "y_length (c_sfinfo three_padded) (c_Fsp three_padded) = Inr 3"
    by (simp add: y_length_def three_padded_def fits_int64_def c_div_def d_of_int_def trunc_def)
  have ok: "c_calloc (calloc_ok (one_file (mono_file 1 [- 1, 2, 1]))) 3 2"
    by (simp add: c_calloc_def one_file_def)
  have t: "d_add (Fin 0) (d_div (Fin 1) (d_of_int (c_Fsp three_padded))) = Fin 1"
    "d_add (Fin 1) (d_div (Fin 1) (d_of_int (c_Fsp three_padded))) = Fin 2"
    by (simp_all add: three_padded_def d_of_int_def rnd_unit)
  have "resamp_loop three_padded h_tab hb_tab 3 0 (Fin 0) (replicate (nat 3) 0) = Inr [0, 1, 1]"
    by (simp add: resamp_loop_step[OF _ sample_three_0] resamp_loop_step[OF _ sample_three_1]
          resamp_loop_step[OF _ sample_three_2] t resamp_loop_done numeral_3_eq_3)
  then show ?thesis
    unfolding resample_def by (simp only: yl ok sum.case not_True_eq_False if_False)
qed

lemma run_three:
  "bi_resamp (one_file (mono_file 1 [- 1, 2, 1])) ''in'' ''out'' 1 =
    (Done, \<lparr>x_buf = Some [0, 0, 0, 0, 0, - 1, 2, 1, 0, 0, 0, 0, 0],
      tables = Some (h_tab, hb_tab), y_buf = Some [0, 1, 1],
      out_file = Some \<lparr>out_path = ''out'',
        out_info = \<lparr>frames = 3, samplerate = 1, channels = 1, format = 0\<rparr>,
        out_pcm = []\<rparr>\<rparr>)"
proof -
  have t: "filter_table (calloc_ok (one_file (mono_file 1 [- 1, 2, 1]))) (kaiser_dB (Fin 80)) L N_h
      = Inr (h_tab, hb_tab)"
    by (rule program_tables) (simp add: one_file_def)
  have w: "write_output (one_file (mono_file 1 [- 1, 2, 1])) ''out'' three_padded [0, 1, 1] =
      Inr \<lparr>out_path = ''out'',
        out_info = \<lparr>frames = 3, samplerate = 1, channels = 1, format = 0\<rparr>,
        out_pcm = []\<rparr>"
    by (simp add: write_output_def sf_open_write_def one_file_def three_padded_def)
  show ?thesis
    unfolding bi_resamp_def
    by (simp only: read_three t resample_three w sum.case prod.case) (simp add: three_padded_def)
qed

section \<open>The claims\<close>

subsection \<open>C5: the shape of the filter table\<close>

text \<open>
  C5: for every valid shape parameter and table length (here: a shape of magnitude at
  most 50, a length of at least two entries and at most \<open>2 ^ 30\<close>, so that the
  \<^verbatim>\<open>int\<close> \<open>M = (len - 1) * 2\<close> does not overflow, a resolution that is a positive
  \<^verbatim>\<open>int\<close>, and allocations that succeed) the filter table is built, \<open>h[0]\<close> is exactly
  1, the last entry of \<open>hb\<close> is 0, and every other \<open>hb[i]\<close> is the finite number
  \<open>h[i+1] - h[i]\<close>.
\<close>

theorem filter_table_shape:
  assumes a: "\<bar>alpha\<bar> \<le> 50" and len: "2 \<le> len" "len \<le> 2 ^ 30"
    and res: "1 \<le> res" "res \<le> INT_MAX" and ok: "ok (nat len) 8"
  shows "\<exists>h hb. filter_table ok (Fin alpha) res len = Inr (h, hb) \<and>
           length h = nat len \<and> length hb = nat len \<and>
           h ! 0 = Fin 1 \<and> hb ! (nat len - 1) = Fin 0 \<and>
           (\<forall>i < nat len - 1. \<exists>a b. h ! i = Fin a \<and> h ! Suc i = Fin b \<and>
                hb ! i = Fin (b - a) \<and> hb ! i = d_sub (h ! Suc i) (h ! i))"
proof -
  let ?h = "map (\<lambda>i. Fin (h_val alpha res len i)) [0..len - 1]"
  let ?hb = "map (\<lambda>i. Fin (hb_val alpha res len i)) [0..len - 1]"
  have ft: "filter_table ok (Fin alpha) res len = Inr (?h, ?hb)"
    using a len res(1) ok by (rule filter_table_ok)
  have len31: "len \<le> 2 ^ 31" using len(2) by simp
  have h0: "?h ! 0 = Fin 1"
    using len(1) by (subst nth_map_upto) (simp_all add: h_val_def)
  have hbl: "?hb ! (nat len - 1) = Fin 0"
    using len(1) by (subst nth_map_upto) (simp_all add: hb_val_def)
  have d: "\<forall>i < nat len - 1. \<exists>a b. ?h ! i = Fin a \<and> ?h ! Suc i = Fin b \<and>
      ?hb ! i = Fin (b - a) \<and> ?hb ! i = d_sub (?h ! Suc i) (?h ! i)"
  proof (intro allI impI)
    fix i assume i: "i < nat len - 1"
    have e1: "?h ! i = Fin (h_val alpha res len (int i))"
      using i by (subst nth_map_upto) simp_all
    have e2: "?h ! Suc i = Fin (h_val alpha res len (int i + 1))"
      using i by (subst nth_map_upto) (simp_all add: add.commute)
    have e3: "?hb ! i = Fin (h_val alpha res len (int i + 1) - h_val alpha res len (int i))"
      using i by (subst nth_map_upto) (auto simp: hb_val_def)
    have "\<bar>h_val alpha res len (int i + 1)\<bar> \<le> 1" "\<bar>h_val alpha res len (int i)\<bar> \<le> 1"
      using h_val_bound[OF a len(1) len31, of "int i + 1" res]
        h_val_bound[OF a len(1) len31, of "int i" res] i by auto
    then have "rnd (h_val alpha res len (int i + 1) - h_val alpha res len (int i))
        = Fin (h_val alpha res len (int i + 1) - h_val alpha res len (int i))"
      by (intro rnd_unit) linarith
    then have e4: "d_sub (?h ! Suc i) (?h ! i)
        = Fin (h_val alpha res len (int i + 1) - h_val alpha res len (int i))"
      by (simp only: e1 e2 d_sub_def d_neg.simps d_add.simps) simp
    show "\<exists>a b. ?h ! i = Fin a \<and> ?h ! Suc i = Fin b \<and>
      ?hb ! i = Fin (b - a) \<and> ?hb ! i = d_sub (?h ! Suc i) (?h ! i)"
      using e1 e2 e3 e4 by simp
  qed
  have len: "length ?h = nat len" "length ?hb = nat len" by simp_all
  show ?thesis
    using ft h0 hbl d len by blast
qed

text \<open>
  The table of the program itself: shape \<^verbatim>\<open>kaiser_dB(80)\<close>, resolution \<open>L\<close>, length
  \<open>N_h\<close>.
\<close>

theorem filter_table_shape_witness:
  "\<exists>h hb. filter_table (\<lambda>n s. True) (kaiser_dB (Fin 80)) L N_h = Inr (h, hb) \<and>
     length h = 2561 \<and> length hb = 2561 \<and> h ! 0 = Fin 1 \<and> hb ! 2560 = Fin 0 \<and>
     hb ! 512 = d_sub (h ! 513) (h ! 512)"
proof -
  have "\<exists>h hb. filter_table (\<lambda>n s. True) (Fin 7.85726) 512 2561 = Inr (h, hb) \<and>
           length h = nat 2561 \<and> length hb = nat 2561 \<and>
           h ! 0 = Fin 1 \<and> hb ! (nat 2561 - 1) = Fin 0 \<and>
           (\<forall>i < nat 2561 - 1. \<exists>a b. h ! i = Fin a \<and> h ! Suc i = Fin b \<and>
                hb ! i = Fin (b - a) \<and> hb ! i = d_sub (h ! Suc i) (h ! i))"
    by (rule filter_table_shape) (simp_all add: INT_MAX_def)
  then obtain h hb where f: "filter_table (\<lambda>n s. True) (Fin 7.85726) 512 2561 = Inr (h, hb)"
    "length h = nat 2561" "length hb = nat 2561" "h ! 0 = Fin 1" "hb ! (nat 2561 - 1) = Fin 0"
    and d: "\<forall>i < nat 2561 - 1. \<exists>a b. h ! i = Fin a \<and> h ! Suc i = Fin b \<and>
                hb ! i = Fin (b - a) \<and> hb ! i = d_sub (h ! Suc i) (h ! i)"
    by blast
  have "(512::nat) < nat 2561 - 1" by simp
  with d have "hb ! 512 = d_sub (h ! Suc 512) (h ! 512)" by blast
  then have "hb ! 512 = d_sub (h ! 513) (h ! 512)" by simp
  then show ?thesis
    using f by (simp add: kaiser_dB_80 L_val N_h_val)
qed

subsection \<open>C6: the breakpoints of the shape formula\<close>

text \<open>
  C6, as the specification states it: at \<open>dB = 21\<close> and at \<open>dB = 50\<close> the formulas of the
  two adjoining branches of \<^verbatim>\<open>kaiser_dB\<close> give the same value up to floating-point
  precision.  At 50 they do not: the upper branch gives 4.55126, and the middle branch,
  which is the one \<^verbatim>\<open>kaiser_dB(50)\<close> takes, is smaller by more than 0.017.
\<close>

theorem kaiser_dB_gap_at_50:
  "d_less (Fin 0.017) (d_sub (kaiser_dB_hi (Fin 50)) (kaiser_dB_mid (Fin 50)))"
proof -
  have "rnd (4.55126 - (0.5842 * (29 powr 0.4) + 0.07886 * 29)) = Fin (4.55126 - (0.5842 * (29 powr 0.4) + 0.07886 * 29))"
    by (rule rnd_small) (use powr_29_bounds in simp)
  then show ?thesis
    using powr_29_bounds by (simp add: kaiser_dB_hi_50 kaiser_dB_mid_50 d_sub_def)
qed

text \<open>
  C6, amended: at \<open>dB = 21\<close> the middle branch gives 0, the value of the lowest branch,
  and \<^verbatim>\<open>kaiser_dB(21)\<close> is 0; at \<open>dB = 50\<close> the function takes the middle branch, whose
  value lies between 0.017 and 0.019 below that of the upper branch.
\<close>

theorem kaiser_dB_breakpoints:
  "kaiser_dB (Fin 21) = Fin 0 \<and> kaiser_dB_mid (Fin 21) = Fin 0 \<and>
   kaiser_dB (Fin 50) = kaiser_dB_mid (Fin 50) \<and>
   (\<exists>g. d_sub (kaiser_dB_hi (Fin 50)) (kaiser_dB_mid (Fin 50)) = Fin g \<and> 0.017 < g \<and> g < 0.019)"
proof -
  have "rnd (4.55126 - (0.5842 * (29 powr 0.4) + 0.07886 * 29)) = Fin (4.55126 - (0.5842 * (29 powr 0.4) + 0.07886 * 29))"
    by (rule rnd_small) (use powr_29_bounds in simp)
  then have "\<exists>g. d_sub (kaiser_dB_hi (Fin 50)) (kaiser_dB_mid (Fin 50)) = Fin g \<and> 0.017 < g \<and> g < 0.019"
    using powr_29_bounds by (simp add: kaiser_dB_hi_50 kaiser_dB_mid_50 d_sub_def)
  then show ?thesis
    by (simp add: kaiser_dB_def d_le_def kaiser_dB_mid_21)
qed

subsection \<open>C7: the window of shape 0\<close>

text \<open>
  C7, as the specification states it: for every half-length \<open>M\<close>,
  \<^verbatim>\<open>kaiser(0, M, n)\<close> is 1 for \<open>n\<close> in \<open>[0, M]\<close> and 0 outside.  For \<open>M = 0\<close> and
  \<open>n = 0\<close> the quotient \<open>2 n / M\<close> is \<open>0 / 0\<close>, a NaN, which reaches \<^verbatim>\<open>bessel_i0\<close>; its
  loop never meets the threshold and runs until the counter overflows.
\<close>

theorem kaiser_zero_length: "kaiser (Fin 0) (Fin 0) (Fin 0) = Inl IntOverflow"
  by (simp add: kaiser_def d_sub_def signed_inf_def rnd_def bessel_i0_NaN)

text \<open>
  C7, amended: for every half-length \<open>M\<close> other than 0 (and small enough for \<open>2 M\<close> to be
  a finite double), \<^verbatim>\<open>kaiser(0, M, n)\<close> is exactly 1 for \<open>n\<close> in \<open>[0, M]\<close> and exactly
  0 for every other \<open>n\<close>.
\<close>

theorem kaiser_rectangular:
  assumes "M \<noteq> 0" "2 * \<bar>M\<bar> \<le> DBL_MAX"
  shows "kaiser (Fin 0) (Fin M) (Fin n) = Inr (Fin (if 0 \<le> n \<and> n \<le> M then 1 else 0))"
proof (cases "0 \<le> n \<and> n \<le> M")
  case True
  then have "0 < M" using assms(1) by linarith
  then show ?thesis
    using True assms(2) kaiser_inside(1)[of 0 n M] by (simp add: kaiser_val_def bessel_val_0)
next
  case False
  then show ?thesis using kaiser_outside[of n M "Fin 0"] by auto
qed

text \<open>
  The window of the program, of half-length 5120, inside and outside.
\<close>

theorem kaiser_rectangular_witness:
  "kaiser (Fin 0) (Fin 5120) (Fin 2047) = Inr (Fin 1) \<and>
   kaiser (Fin 0) (Fin 5120) (Fin 6000) = Inr (Fin 0)"
  using kaiser_rectangular[of 5120 2047] kaiser_rectangular[of 5120 6000]
  by (simp add: DBL_MAX_def)

subsection \<open>C8: termination of the Bessel series\<close>

text \<open>
  C8, as the specification states it: for every finite \<open>x\<close> the loop of
  \<^verbatim>\<open>bessel_i0\<close> terminates with a finite, non-negative value.  At \<open>x = 1e200\<close> the
  power \<open>(x / 2) ^ (2 i)\<close> overflows from the first term on, the term is never below the
  threshold, and the loop runs until \<open>i * 2\<close> overflows.
\<close>

theorem bessel_i0_overflow: "bessel_i0 (Fin (10 ^ 200)) = Inl IntOverflow"
proof -
  have "bessel_loop (Fin (10 ^ 200)) (Fin 1) (Fin 1) 1 = Inl IntOverflow"
  proof (rule bessel_loop_never)
    fix i :: nat and f
    assume i: "1 \<le> i"
    have h: "d_div (Fin (10 ^ 200)) (Fin 2) = Fin (5 * 10 ^ 199)"
      by (simp add: rnd_small)
    have "(2::real) ^ 1024 \<le> (5 * 10 ^ 199) ^ 2" by simp
    also have "\<dots> \<le> (5 * 10 ^ 199) ^ (i * 2)"
      using i by (intro power_increasing) auto
    finally have "DBL_MAX < (5 * 10 ^ 199) ^ (i * 2)" using DBL_MAX_lt by linarith
    then have p: "d_pow (Fin (5 * 10 ^ 199)) (i * 2) = PInf"
      by (simp only: d_pow.simps rnd_def if_True)
    show "\<not> d_less (d_div (d_pow (d_div (Fin (10 ^ 200)) (Fin 2)) (i * 2)) (d_pow f 2))
              (Fin (1 / 10 ^ 21))"
      using d_div_PInf_sq[of f] by (auto simp only: h p d_less.simps)
  qed simp
  then show ?thesis by (simp add: bessel_i0_def)
qed

text \<open>
  C8, amended: for every \<open>x\<close> with \<open>\<bar>x\<bar> \<le> 50\<close> (the resampler passes at most
  \<^verbatim>\<open>kaiser_dB(80)\<close>, about 7.86) the loop terminates within 90 terms: it meets the
  threshold and breaks with its counter \<open>i\<close> at most 90, and \<^verbatim>\<open>bessel_i0\<close> returns the
  sum it has then, a finite value that is at least 1.
\<close>

theorem bessel_i0_moderate:
  assumes "\<bar>x\<bar> \<le> 50"
  shows "\<exists>r m. bessel_loop (Fin x) (Fin 1) (Fin 1) 1 = Inr (Fin r, m) \<and> m \<le> 90 \<and>
           bessel_i0 (Fin x) = Inr (Fin r) \<and> 1 \<le> r"
proof -
  from bessel_i0_run[OF assms] obtain m where m: "m \<le> 90"
    "bessel_loop (Fin x) (Fin 1) (Fin 1) 1 = Inr (Fin (bsum x m), m)"
    "bessel_i0 (Fin x) = Inr (Fin (bsum x m))" by blast
  have "1 \<le> bsum x m" by (rule bsum_ge_1)
  with m show ?thesis by blast
qed

text \<open>
  At the shape the program uses.
\<close>

theorem bessel_i0_moderate_witness:
  "\<exists>r m. bessel_loop (kaiser_dB (Fin 80)) (Fin 1) (Fin 1) 1 = Inr (Fin r, m) \<and> m \<le> 90 \<and>
     bessel_i0 (kaiser_dB (Fin 80)) = Inr (Fin r) \<and> 1 \<le> r"
proof -
  have k: "kaiser_dB (Fin 80) = Fin 7.85726" by (rule kaiser_dB_80)
  have "\<bar>7.85726 :: real\<bar> \<le> 50" by simp
  then show ?thesis unfolding k by (rule bessel_i0_moderate)
qed

subsection \<open>C1: what the output file holds\<close>

text \<open>
  C1 says that the file written holds the \<open>y_len\<close> resampled frames.  Every run that
  ends normally has filled the buffer \<open>y\<close> and created the output file with one
  channel, the target rate and the frame count \<open>y_len\<close> in its \<^verbatim>\<open>SF_INFO\<close>, but it has
  never handed \<open>y\<close> to a write call: the file holds no frame.
\<close>

theorem output_file_empty:
  assumes run: "bi_resamp w inp out rate = (Done, p)"
  shows "\<exists>y f. y_buf p = Some y \<and> out_file p = Some f \<and> out_path f = out \<and>
           channels (out_info f) = 1 \<and> samplerate (out_info f) = rate \<and>
           frames (out_info f) = int (length y) \<and> out_pcm f = []"
proof -
  from run obtain c h hb y g where c: "read_input w inp rate = Inr c"
    and g: "write_output w out c y = Inr g"
    and p: "p = \<lparr>x_buf = Some (c_x c), tables = Some (h, hb), y_buf = Some y, out_file = Some g\<rparr>"
    by (rule bi_resamp_Done)
  from c have r: "c_Fsp c = rate" by (auto elim: read_input_info)
  have "out_path g = out \<and> channels (out_info g) = 1 \<and> samplerate (out_info g) = rate \<and>
      frames (out_info g) = int (length y) \<and> out_pcm g = []"
    using g r unfolding write_output_def sf_open_write_def Let_def
    by (auto split: option.splits if_splits)
  then show ?thesis using p by simp
qed

text \<open>
  A run on the three samples -1, 2, 1 at 1 Hz, resampled to 1 Hz: the output buffer is
  0, 1, 1 and the file holds none of it.
\<close>

theorem output_file_empty_witness:
  "\<exists>p f. bi_resamp (one_file (mono_file 1 [- 1, 2, 1])) ''in'' ''out'' 1 = (Done, p) \<and>
     y_buf p = Some [0, 1, 1] \<and> out_file p = Some f \<and> out_pcm f = [] \<and>
     frames (out_info f) = 3"
proof -
  let ?w = "one_file (mono_file 1 [- 1, 2, 1])"
  let ?p = "snd (bi_resamp ?w ''in'' ''out'' 1)"
  have run: "bi_resamp ?w ''in'' ''out'' 1 = (Done, ?p)" by (simp add: run_three)
  from output_file_empty[OF run] obtain y f where "y_buf ?p = Some y" "out_file ?p = Some f"
    "frames (out_info f) = int (length y)" "out_pcm f = []" by blast
  moreover have "y_buf ?p = Some [0, 1, 1]" by (simp add: run_three)
  ultimately show ?thesis using run by auto
qed

subsection \<open>C2: the output length\<close>

text \<open>
  C2: for an input of \<open>F\<close> frames at rate \<open>Fs\<close> and an output rate \<open>Fsp\<close>, every run that
  ends normally has produced exactly \<open>floor(F * Fsp / Fs)\<close> output samples.
\<close>

theorem output_length:
  assumes run: "bi_resamp w inp out rate = (Done, p)"
    and f: "files w inp = Some f"
    and wf: "0 \<le> frames (info f)" "0 < samplerate (info f)" "0 \<le> rate"
  shows "\<exists>y. y_buf p = Some y \<and>
           int (length y) = (frames (info f) * rate) div samplerate (info f)"
proof -
  from run obtain c h hb y g where c: "read_input w inp rate = Inr c"
    and y: "resample w c h hb = Inr y"
    and p: "p = \<lparr>x_buf = Some (c_x c), tables = Some (h, hb), y_buf = Some y, out_file = Some g\<rparr>"
    by (rule bi_resamp_Done)
  from c f have i: "c_sfinfo c = info f" "c_Fsp c = rate"
    by (auto elim: read_input_info)
  have "y_length (info f) rate = Inr (int (length y))"
    using resample_length[OF y] i by simp
  then have "int (length y) = c_div (frames (info f) * rate) (samplerate (info f))"
    using wf(2) unfolding y_length_def
    by (auto split: if_splits dest: d_to_sint_Inr)
  also have "\<dots> = (frames (info f) * rate) div samplerate (info f)"
    using wf by (intro c_div_floor) auto
  finally show ?thesis using p by simp
qed

text \<open>
  The run on one frame at 1 Hz, resampled to 1 Hz.
\<close>

theorem output_length_witness:
  "\<exists>p y. bi_resamp (one_file (mono_file 1 [0])) ''in'' ''out'' 1 = (Done, p) \<and>
     y_buf p = Some y \<and> length y = 1"
proof -
  let ?w = "one_file (mono_file 1 [0])"
  let ?p = "snd (bi_resamp ?w ''in'' ''out'' 1)"
  have run: "bi_resamp ?w ''in'' ''out'' 1 = (Done, ?p)" by (simp add: run_tiny)
  have f: "files ?w ''in'' = Some (mono_file 1 [0])" by (simp add: one_file_def)
  have "\<exists>y. y_buf ?p = Some y \<and>
      int (length y) = (frames (info (mono_file 1 [0])) * 1) div samplerate (info (mono_file 1 [0]))"
    using run f by (rule output_length) (simp_all add: mono_file_def)
  then show ?thesis using run by (auto simp: mono_file_def)
qed

subsection \<open>C9: the fixed attenuation\<close>

text \<open>
  C9: whatever the input file, the paths and the rate, a table that a run has built is
  the one of shape \<^verbatim>\<open>kaiser_dB(80)\<close> = 0.1102 * (80 - 8.7): the same pair
  \<open>(h_tab, hb_tab)\<close> in every run.
\<close>

theorem fixed_attenuation:
  assumes "tables (snd (bi_resamp w inp out rate)) = Some tb"
  shows "filter_table (calloc_ok w) (kaiser_dB (Fin 80)) L N_h = Inr tb \<and>
         kaiser_dB (Fin 80) = Fin (0.1102 * (80 - 8.7)) \<and>
         tb = (h_tab, hb_tab)"
proof -
  have ft: "filter_table (calloc_ok w) (kaiser_dB (Fin 80)) L N_h = Inr tb"
    using assms by (rule bi_resamp_tables)
  have k: "kaiser_dB (Fin 80) = Fin (0.1102 * (80 - 8.7))"
    by (simp add: kaiser_dB_80)
  have ok: "calloc_ok w (nat N_h) 8"
    using filter_table_calloc[OF ft] by (simp add: c_calloc_def)
  have "filter_table (calloc_ok w) (kaiser_dB (Fin 80)) L N_h = Inr (h_tab, hb_tab)"
    using ok by (rule program_tables)
  then show ?thesis using ft k by simp
qed

text \<open>
  The table of the run on one frame at 1 Hz.
\<close>

theorem fixed_attenuation_witness:
  "tables (snd (bi_resamp (one_file (mono_file 1 [0])) ''in'' ''out'' 1)) = Some (h_tab, hb_tab) \<and>
   filter_table (\<lambda>n s. True) (kaiser_dB (Fin 80)) L N_h = Inr (h_tab, hb_tab)"
proof -
  have t: "tables (snd (bi_resamp (one_file (mono_file 1 [0])) ''in'' ''out'' 1))
      = Some (h_tab, hb_tab)"
    by (simp add: run_tiny)
  from fixed_attenuation[OF t]
  have "filter_table (calloc_ok (one_file (mono_file 1 [0]))) (kaiser_dB (Fin 80)) L N_h
      = Inr (h_tab, hb_tab)"
    by (rule conjunct1)
  then have "filter_table (\<lambda>n s. True) (kaiser_dB (Fin 80)) L N_h = Inr (h_tab, hb_tab)"
    by (simp add: one_file_def)
  from t this show ?thesis by (rule conjI)
qed

subsection \<open>C10: a short read\<close>

text \<open>
  C10: when the decoder yields a number of frames other than the one the header reports
  (and the header values are of ordinary size, so that the buffer sizes are representable),
  the run exits with status 1, and it has built no table, no output sample and no file.
\<close>

theorem short_read_exits:
  assumes f: "files w inp = Some f"
    and short: "fst (sf_readf_short f (frames (info f))) \<noteq> frames (info f)"
    and rate: "1 \<le> rate" "rate \<le> INT_MAX"
    and hdr: "1 \<le> samplerate (info f)" "samplerate (info f) \<le> 2 ^ 26"
      "0 \<le> frames (info f)" "1 \<le> channels (info f)"
      "frames (info f) * channels (info f) \<le> 2 ^ 30"
  shows "bi_resamp w inp out rate = (Stopped (Exit 1), start)"
proof -
  let ?Fs = "samplerate (info f)"
  let ?e = "if rate < ?Fs then \<lceil>real_of_int (5 * ?Fs) / real_of_int rate\<rceil> else 5"
  have r31: "rate \<le> 2 ^ 31" using rate(2) by (simp add: INT_MAX_def)
  note e = extra_defined[OF rate(1) hdr(1,2) r31]
  have "frames (info f) * 1 \<le> frames (info f) * channels (info f)"
    using hdr(3,4) by (intro mult_left_mono) auto
  then have F: "frames (info f) \<le> 2 ^ 30" using hdr(5) by simp
  have fx: "fits_int (frames (info f) + 2 * ?e)"
    using F hdr(3) e(2,3) by (simp only: fits_int_def INT_MAX_def) simp
  have "0 \<le> frames (info f) * channels (info f)"
    using hdr(3,4) by (intro mult_nonneg_nonneg) auto
  then have fd: "fits_int (frames (info f) * channels (info f))"
    using hdr(5) by (simp add: fits_int_def INT_MAX_def)
  have "read_input w inp rate = Inl (Exit 1)"
    unfolding read_input_def
    using short
    by (simp only: f option.case Let_def e(1) sum.case fx fd split: prod.splits) auto
  then show ?thesis by (simp add: bi_resamp_def)
qed

text \<open>
  A header that reports two frames over data that holds one.
\<close>

theorem short_read_exits_witness:
  "bi_resamp
     (one_file \<lparr>info = \<lparr>frames = 2, samplerate = 1, channels = 1, format = 0\<rparr>, pcm = [0]\<rparr>)
     ''in'' ''out'' 1 = (Stopped (Exit 1), start) \<and>
   tables start = None \<and> y_buf start = None \<and> out_file start = None"
proof -
  let ?f = "\<lparr>info = \<lparr>frames = 2, samplerate = 1, channels = 1, format = 0\<rparr>, pcm = [0]\<rparr>"
  have "bi_resamp (one_file ?f) ''in'' ''out'' 1 = (Stopped (Exit 1), start)"
    by (rule short_read_exits[where f = ?f])
       (simp_all add: one_file_def sf_readf_short_def INT_MAX_def)
  then show ?thesis by (simp add: start_def)
qed

subsection \<open>C3: where the accumulated sum is truncated\<close>

text \<open>
  C3, as the specification states it: \<open>y[j]\<close> is the sum of the terms of the two wings,
  converted to 16 bits once, at the end (\<open>sample_once\<close>).  The accumulator \<open>v\<close> of the
  program is a \<^verbatim>\<open>short\<close>, so every \<open>v += ...\<close> converts.  On the samples -1, 2, 1
  at 1 Hz, resampled to 1 Hz, the terms of \<open>y[0]\<close> are -1, then 2 h[513] (between -2/513
  and 0) and h[1025] (between 0 and 1/1025), and zeros: their sum is in [-1 - 2/513, -1)
  and converts to -1, but the program goes from -1 to -1 and then to 0, and stores 0.
\<close>

theorem truncation_at_every_term:
  "\<exists>p c h hb y. bi_resamp (one_file (mono_file 1 [- 1, 2, 1])) ''in'' ''out'' 1 = (Done, p) \<and>
     read_input (one_file (mono_file 1 [- 1, 2, 1])) ''in'' 1 = Inr c \<and>
     tables p = Some (h, hb) \<and> y_buf p = Some y \<and>
     y ! 0 = 0 \<and> sample_once c h hb (time_at c 0) = Inr (- 1)"
proof -
  let ?w = "one_file (mono_file 1 [- 1, 2, 1])"
  let ?p = "snd (bi_resamp ?w ''in'' ''out'' 1)"
  have run: "bi_resamp ?w ''in'' ''out'' 1 = (Done, ?p)" by (simp add: run_three)
  have tb: "tables ?p = Some (h_tab, hb_tab)" and y: "y_buf ?p = Some [0, 1, 1]"
    by (simp_all add: run_three)
  have "sample_once three_padded h_tab hb_tab (time_at three_padded 0) = Inr (- 1)"
    using once_three by simp
  then show ?thesis using run read_three tb y by auto
qed

text \<open>
  C3, amended: in a run that ends normally, every output sample \<open>y[j]\<close> is what a 16-bit
  accumulator holds that starts at 0 and takes the terms
  \<open>x[n - i] * (h[l + i L] + eta * hb[l + i L])\<close> of the left wing, then those of the right
  wing (with \<open>1 - eta\<close>), one at a time, converting the sum to 16 bits (towards zero) after
  each term.
\<close>

theorem output_sample_accumulates:
  assumes run: "bi_resamp w inp out rate = (Done, p)" and c: "read_input w inp rate = Inr c"
    and tb: "tables p = Some (h, hb)" and y: "y_buf p = Some y" and j: "j < length y"
    and ts: "sample_terms c h hb (time_at c j) = Inr ts"
  shows "acc16 0 ts = Inr (y ! j)"
proof -
  from run obtain c' h' hb' y' f where c': "read_input w inp rate = Inr c'"
    and r: "resample w c' h' hb' = Inr y'"
    and p: "p = \<lparr>x_buf = Some (c_x c'), tables = Some (h', hb'), y_buf = Some y', out_file = Some f\<rparr>"
    by (rule bi_resamp_Done)
  have "c' = c" "h' = h" "hb' = hb" "y' = y" using c c' tb y p by simp_all
  then have "resample w c h hb = Inr y" using r by simp
  then have "sample c h hb (time_at c j) = Inr (y ! j)" using j by (rule resample_nth)
  then show ?thesis using sample_acc16[OF ts] by simp
qed

text \<open>
  The first output sample of the run on -1, 2, 1.
\<close>

theorem output_sample_accumulates_witness:
  "\<exists>p ts. bi_resamp (one_file (mono_file 1 [- 1, 2, 1])) ''in'' ''out'' 1 = (Done, p) \<and>
     y_buf p = Some [0, 1, 1] \<and>
     sample_terms three_padded h_tab hb_tab (time_at three_padded 0) = Inr ts \<and>
     acc16 0 ts = Inr 0"
proof -
  let ?w = "one_file (mono_file 1 [- 1, 2, 1])"
  let ?p = "snd (bi_resamp ?w ''in'' ''out'' 1)"
  let ?ts = "[Inr (Fin (- 1)), Inr (Fin 0), Inr (Fin 0), Inr (Fin 0), Inr (Fin 0), Inr (Fin 0),
         Inr (Fin (2 * h_val alpha80 L N_h 513)), Inr (Fin (h_val alpha80 L N_h 1025)),
         Inr (Fin 0), Inr (Fin 0), Inr (Fin 0)]"
  have run: "bi_resamp ?w ''in'' ''out'' 1 = (Done, ?p)" by (simp add: run_three)
  have tb: "tables ?p = Some (h_tab, hb_tab)" and y: "y_buf ?p = Some [0, 1, 1]"
    by (simp_all add: run_three)
  have j: "(0::nat) < length [0, 1, 1 :: short]" by simp
  have ts: "sample_terms three_padded h_tab hb_tab (time_at three_padded 0) = Inr ?ts"
    using terms_three by simp
  have "acc16 0 ?ts = Inr ([0, 1, 1] ! 0)"
    using run read_three tb y j ts by (rule output_sample_accumulates)
  then show ?thesis using run y ts by auto
qed

subsection \<open>C4: reads within the padded buffer\<close>

text \<open>
  C4 says that no read of the padded signal leaves \<open>[0, x_len)\<close>.  One frame at 1 Hz
  resampled to 1024 Hz has \<open>extra = 5\<close> and \<open>x_len = 11\<close>; at \<open>j = 1023\<close> the time is
  1023/1024, \<open>n = 5\<close> after the padding is added, and \<open>1 - eta = 1/1024\<close> gives \<open>l = 0\<close>, so
  the right wing runs to \<open>i = 5\<close> (the table index 2560 is still below \<open>N_h\<close>) and reads
  \<open>x[n + 1 + 5] = x[11]\<close>.
\<close>

theorem read_past_padding:
  "bi_resamp (one_file (mono_file 1 [0])) ''in'' ''out'' 1024 =
     (Stopped OutOfBounds,
      \<lparr>x_buf = Some (replicate 11 0), tables = Some (h_tab, hb_tab), y_buf = None,
       out_file = None\<rparr>) \<and>
   sample up_padded h_tab hb_tab (Fin (1023 / 1024)) = Inl OutOfBounds \<and>
   c_x_len up_padded = 11 \<and> c_nth (c_x up_padded) 11 = Inl OutOfBounds"
proof -
  have t: "filter_table (calloc_ok (one_file (mono_file 1 [0]))) (kaiser_dB (Fin 80)) L N_h
      = Inr (h_tab, hb_tab)"
    by (rule program_tables) (simp add: one_file_def)
  have "bi_resamp (one_file (mono_file 1 [0])) ''in'' ''out'' 1024 =
     (Stopped OutOfBounds,
      \<lparr>x_buf = Some (replicate 11 0), tables = Some (h_tab, hb_tab), y_buf = None,
       out_file = None\<rparr>)"
    unfolding bi_resamp_def
    by (simp only: read_up t resample_up sum.case prod.case) (simp add: up_padded_def start_def)
  then show ?thesis
    using sample_up_last by (simp add: up_padded_def c_nth_def)
qed

end
